theory Spec2Isabelle
  imports Main "HOL-Library.Word" "HOL-Library.Multiset" "HOL-Library.Monad_Syntax"
begin

section \<open>Data model (splay.h, splay.c)\<close>

text \<open>
  \<^verbatim>\<open>typedef int splay_Key;\<close> a 32-bit two's complement integer. Keys are only ever
  compared, through the macros \<^verbatim>\<open>LESSKEY\<close> and \<^verbatim>\<open>KEYLESS\<close>, as signed values.
  \<^verbatim>\<open>typedef void* splay_Satellite;\<close> an opaque pointer: \<open>None\<close> is the null pointer,
  \<open>Some a\<close> the address \<open>a\<close>.
\<close>

type_synonym splay_Key = "32 word"
type_synonym splay_Satellite = "nat option"

definition LESSKEY :: "splay_Key \<Rightarrow> splay_Key \<Rightarrow> bool" where
  "LESSKEY pk k = (sint pk < sint k)"

definition KEYLESS :: "splay_Key \<Rightarrow> splay_Key \<Rightarrow> bool" where
  "KEYLESS k pk = (sint k < sint pk)"

definition INT_MIN :: splay_Key where
  "INT_MIN = 0x80000000"

definition INT_MAX :: splay_Key where
  "INT_MAX = 0x7FFFFFFF"

text \<open>
  A \<^verbatim>\<open>struct splay_Node *\<close> is either the null pointer or owns a node with the fields
  \<^verbatim>\<open>keiy\<close>, \<^verbatim>\<open>sat\<close>, \<^verbatim>\<open>left\<close>, \<^verbatim>\<open>right\<close> (in this order). Nodes have no parent
  pointer and every node is owned by exactly one link, so a pointer is modelled by the
  subtree it owns.
\<close>

datatype splay_Node = NULL | Node splay_Key splay_Satellite splay_Node splay_Node

record splay_Result =
  found :: int
  key :: splay_Key
  sat :: splay_Satellite

record splay_Tree =
  root :: splay_Node
  size_fld :: "32 word"

text \<open>
  A \<^verbatim>\<open>struct splay_Tree *\<close> argument is \<open>None\<close> for the null pointer. A function result
  is \<open>None\<close> when the source aborts in \<^verbatim>\<open>SPLAY_ASSERT\<close> (the macro \<^verbatim>\<open>SPLAY_DEBUG\<close>
  is 1 by default) or dereferences a null pointer.
\<close>

type_synonym tree_handle = "splay_Tree option"

datatype exit_status = EXIT_SUCCESS | EXIT_FAILURE

definition SPLAY_ASSERT :: "bool \<Rightarrow> unit option" where
  "SPLAY_ASSERT p = (if p then Some () else None)"

definition SPLAY_BLANK_RESULT :: splay_Result where
  "SPLAY_BLANK_RESULT = \<lparr>found = 0, key = 0, sat = None\<rparr>"

subsection \<open>Memory allocation\<close>

text \<open>
  \<^verbatim>\<open>malloc\<close> and \<^verbatim>\<open>free\<close> are each called at one place, \<^verbatim>\<open>node_ctor\<close> and
  \<^verbatim>\<open>FREENODE\<close>. The allocator counts the nodes handed out and the nodes released;
  \<open>future\<close> lists the outcomes of the coming \<^verbatim>\<open>malloc\<close> calls (an exhausted list
  means failure).
\<close>

record allocator =
  allocated :: nat
  released :: nat
  future :: "bool list"

definition malloc_node :: "allocator \<Rightarrow> bool \<times> allocator" where
  "malloc_node a =
     (case future a of
        [] \<Rightarrow> (False, a)
      | b # bs \<Rightarrow>
          (b, a\<lparr>allocated := (if b then Suc (allocated a) else allocated a), future := bs\<rparr>))"

definition FREENODE :: "allocator \<Rightarrow> allocator" where
  "FREENODE a = a\<lparr>released := Suc (released a)\<rparr>"

definition node_ctor :: "allocator \<Rightarrow> splay_Key \<Rightarrow> splay_Satellite \<Rightarrow> splay_Node \<times> allocator" where
  "node_ctor a k s =
     (case malloc_node a of
        (True, a') \<Rightarrow> (Node k s NULL NULL, a')
      | (False, a') \<Rightarrow> (NULL, a'))"

subsection \<open>Rotations\<close>

fun left_rot :: "splay_Node \<Rightarrow> splay_Node option" where
  "left_rot (Node tk ts tlt (Node uk us ult urt)) = Some (Node uk us (Node tk ts tlt ult) urt)"
| "left_rot _ = None"

fun right_rot :: "splay_Node \<Rightarrow> splay_Node option" where
  "right_rot (Node tk ts (Node sk ss slt srt) trt) = Some (Node sk ss slt (Node tk ts srt trt))"
| "right_rot _ = None"

subsection \<open>The top-down splay cursor\<close>

datatype td_history_keys = RIGHT_FIRST | LEFT_FIRST | RIGHT_2ND | LEFT_2ND

text \<open>
  \<^verbatim>\<open>struct splay_Topdown\<close>: \<open>rem0\<close> and \<open>rem1\<close> are \<^verbatim>\<open>rem[0].root\<close> and
  \<^verbatim>\<open>rem[1].root\<close>. The \<^verbatim>\<open>tip\<close> fields are not stored: as the source documents,
  the tip of the left remainder tree points to its root or to the right-child field of
  its maximal node (the last node attached, whose right link \<^verbatim>\<open>update_left_tip\<close> has
  set to null), and symmetrically for the right remainder tree. A store through the tip
  is therefore a store at the end of the right (left) spine.
\<close>

record splay_Topdown =
  rem0 :: splay_Node
  rem1 :: splay_Node
  history :: "td_history_keys \<Rightarrow> splay_Node"

fun store_left_tip :: "splay_Node \<Rightarrow> splay_Node \<Rightarrow> splay_Node" where
  "store_left_tip NULL n = n"
| "store_left_tip (Node k s l r) n = Node k s l (store_left_tip r n)"

fun store_right_tip :: "splay_Node \<Rightarrow> splay_Node \<Rightarrow> splay_Node" where
  "store_right_tip NULL n = n"
| "store_right_tip (Node k s l r) n = Node k s (store_right_tip l n) r"

definition initialize_td_history :: "splay_Topdown \<Rightarrow> splay_Topdown" where
  "initialize_td_history td = td\<lparr>history := (\<lambda>i. NULL)\<rparr>"

definition initialize_topdown :: splay_Topdown where
  "initialize_topdown = \<lparr>rem0 = NULL, rem1 = NULL, history = (\<lambda>i. NULL)\<rparr>"

definition is_td_history_blank :: "splay_Topdown \<Rightarrow> bool" where
  "is_td_history_blank td = (history td RIGHT_FIRST = NULL \<and> history td LEFT_FIRST = NULL)"

definition update_right_tip :: "splay_Topdown \<Rightarrow> splay_Node \<Rightarrow> splay_Topdown option" where
  "update_right_tip td n =
     (case n of
        NULL \<Rightarrow> None
      | Node k s l r \<Rightarrow> Some (td\<lparr>rem1 := store_right_tip (rem1 td) (Node k s NULL r)\<rparr>))"

definition update_left_tip :: "splay_Topdown \<Rightarrow> splay_Node \<Rightarrow> splay_Topdown option" where
  "update_left_tip td n =
     (case n of
        NULL \<Rightarrow> None
      | Node k s l r \<Rightarrow> Some (td\<lparr>rem0 := store_left_tip (rem0 td) (Node k s l NULL)\<rparr>))"

definition topdown_set_aside :: "splay_Topdown \<Rightarrow> splay_Topdown option" where
  "topdown_set_aside td =
     (let pl = history td RIGHT_2ND; pr = history td LEFT_2ND in
      (if pl = NULL \<and> pr = NULL then
         (if history td RIGHT_FIRST \<noteq> NULL
          then update_left_tip td (history td RIGHT_FIRST)
          else update_right_tip td (history td LEFT_FIRST))
       else if pr = NULL then
         (if history td RIGHT_FIRST \<noteq> NULL
          then left_rot (history td RIGHT_FIRST) \<bind> update_left_tip td
          else update_right_tip td (history td LEFT_FIRST)
                 \<bind> (\<lambda>td1. update_left_tip td1 (history td1 RIGHT_2ND)))
       else
         (if history td LEFT_FIRST \<noteq> NULL
          then right_rot (history td LEFT_FIRST) \<bind> update_right_tip td
          else update_left_tip td (history td RIGHT_FIRST)
                 \<bind> (\<lambda>td1. update_right_tip td1 (history td1 LEFT_2ND))))
      \<bind> (\<lambda>td2. Some (initialize_td_history td2)))"

text \<open>
  The four \<^verbatim>\<open>STEP_...\<close> macros: record \<open>r\<close> in the history, then follow a link of it.
  A history slot aliases a node that its parent still links to. The slot holds the node as
  it is when recorded; this is what the source reads later, since no node is written between
  a step and \<^verbatim>\<open>topdown_set_aside\<close>, which reaches the second node of a zig-zig through the
  first (\<^verbatim>\<open>left_rot\<close>, \<^verbatim>\<open>right_rot\<close>) and otherwise nulls the link from each node it
  stores to the subtree the descent continues in.
\<close>

definition STEP_RIGHT_FIRST :: "splay_Topdown \<Rightarrow> splay_Node \<Rightarrow> (splay_Topdown \<times> splay_Node) option" where
  "STEP_RIGHT_FIRST td r =
     (case r of NULL \<Rightarrow> None
      | Node k s lt rt \<Rightarrow> Some (td\<lparr>history := (history td)(RIGHT_FIRST := r)\<rparr>, rt))"

definition STEP_LEFT_FIRST :: "splay_Topdown \<Rightarrow> splay_Node \<Rightarrow> (splay_Topdown \<times> splay_Node) option" where
  "STEP_LEFT_FIRST td r =
     (case r of NULL \<Rightarrow> None
      | Node k s lt rt \<Rightarrow> Some (td\<lparr>history := (history td)(LEFT_FIRST := r)\<rparr>, lt))"

definition STEP_RIGHT_2ND :: "splay_Topdown \<Rightarrow> splay_Node \<Rightarrow> (splay_Topdown \<times> splay_Node) option" where
  "STEP_RIGHT_2ND td r =
     (case r of NULL \<Rightarrow> None
      | Node k s lt rt \<Rightarrow> Some (td\<lparr>history := (history td)(RIGHT_2ND := r)\<rparr>, rt))"

definition STEP_LEFT_2ND :: "splay_Topdown \<Rightarrow> splay_Node \<Rightarrow> (splay_Topdown \<times> splay_Node) option" where
  "STEP_LEFT_2ND td r =
     (case r of NULL \<Rightarrow> None
      | Node k s lt rt \<Rightarrow> Some (td\<lparr>history := (history td)(LEFT_2ND := r)\<rparr>, lt))"

definition undo_first_step :: "splay_Topdown \<Rightarrow> (splay_Node \<times> splay_Topdown) option" where
  "undo_first_step td =
     do {
       SPLAY_ASSERT (history td RIGHT_FIRST = NULL \<or> history td LEFT_FIRST = NULL);
       (rt, td1) \<leftarrow> Some
         (if history td RIGHT_FIRST \<noteq> NULL
          then (history td RIGHT_FIRST, td\<lparr>history := (history td)(RIGHT_FIRST := NULL)\<rparr>)
          else (history td LEFT_FIRST, td\<lparr>history := (history td)(LEFT_FIRST := NULL)\<rparr>));
       SPLAY_ASSERT (rt \<noteq> NULL);
       Some (rt, td1)
     }"

definition undo_2nd_step :: "splay_Topdown \<Rightarrow> (splay_Node \<times> splay_Topdown) option" where
  "undo_2nd_step td =
     do {
       SPLAY_ASSERT (history td RIGHT_2ND = NULL \<or> history td LEFT_2ND = NULL);
       (rt, td1) \<leftarrow> Some
         (if history td RIGHT_2ND \<noteq> NULL
          then (history td RIGHT_2ND, td\<lparr>history := (history td)(RIGHT_2ND := NULL)\<rparr>)
          else (history td LEFT_2ND, td\<lparr>history := (history td)(LEFT_2ND := NULL)\<rparr>));
       SPLAY_ASSERT (rt \<noteq> NULL);
       Some (rt, td1)
     }"

subsection \<open>search_and_splay\<close>

text \<open>
  One run of the body of the \<^verbatim>\<open>for\<close> loop either leaves the loop (\<open>Break\<close>, with the
  value stored in \<^verbatim>\<open>*found\<close>) or reaches its end (\<open>Continue\<close>), after which the loop's
  increment \<^verbatim>\<open>topdown_set_aside(&td)\<close> runs.
\<close>

datatype loop_step = Break splay_Topdown splay_Node int | Continue splay_Topdown splay_Node

definition search_after_2nd :: "splay_Topdown \<times> splay_Node \<Rightarrow> loop_step option" where
  "search_after_2nd p =
     (case p of (td, rt) \<Rightarrow>
        if rt = NULL
        then undo_2nd_step td \<bind> (\<lambda>(rt1, td1). Some (Break td1 rt1 0))
        else Some (Continue td rt))"

definition search_after_first :: "splay_Key \<Rightarrow> splay_Topdown \<times> splay_Node \<Rightarrow> loop_step option" where
  "search_after_first k p =
     (case p of (td, rt) \<Rightarrow>
        (case rt of
           NULL \<Rightarrow> undo_first_step td \<bind> (\<lambda>(rt1, td1). Some (Break td1 rt1 0))
         | Node k2 s2 l2 r2 \<Rightarrow>
             if LESSKEY k2 k then STEP_RIGHT_2ND td rt \<bind> search_after_2nd
             else if KEYLESS k k2 then STEP_LEFT_2ND td rt \<bind> search_after_2nd
             else Some (Break td rt 1)))"

definition search_body :: "splay_Topdown \<Rightarrow> splay_Node \<Rightarrow> splay_Key \<Rightarrow> loop_step option" where
  "search_body td rt k =
     (case rt of
        NULL \<Rightarrow> None
      | Node k1 s1 l1 r1 \<Rightarrow>
          if LESSKEY k1 k then STEP_RIGHT_FIRST td rt \<bind> search_after_first k
          else if KEYLESS k k1 then STEP_LEFT_FIRST td rt \<bind> search_after_first k
          else Some (Break td rt 1))"

fun node_count :: "splay_Node \<Rightarrow> nat" where
  "node_count NULL = 0"
| "node_count (Node k s l r) = Suc (node_count l + node_count r)"

lemma search_body_descends:
  "search_body td rt k = Some (Continue td1 rt1) \<Longrightarrow> node_count rt1 < node_count rt"
  by (auto simp: search_body_def search_after_first_def search_after_2nd_def
        STEP_RIGHT_FIRST_def STEP_LEFT_FIRST_def STEP_RIGHT_2ND_def STEP_LEFT_2ND_def
      split: splay_Node.splits if_splits bind_splits prod.splits)

function search_loop ::
  "splay_Topdown \<Rightarrow> splay_Node \<Rightarrow> splay_Key \<Rightarrow> (splay_Topdown \<times> splay_Node \<times> int) option" where
  "search_loop td rt k =
     (case search_body td rt k of
        None \<Rightarrow> None
      | Some (Break td1 rt1 fnd) \<Rightarrow> Some (td1, rt1, fnd)
      | Some (Continue td1 rt1) \<Rightarrow>
          (case topdown_set_aside td1 of
             None \<Rightarrow> None
           | Some td2 \<Rightarrow> search_loop td2 rt1 k))"
  by pat_completeness auto
termination
  by (relation "measure (\<lambda>(td, rt, k). node_count rt)") (auto dest: search_body_descends)

declare search_loop.simps [simp del]

text \<open>The code of \<^verbatim>\<open>search_and_splay\<close> after its loop: assertions, final zig, final splice.\<close>

definition search_finish ::
  "splay_Key \<Rightarrow> splay_Topdown \<times> splay_Node \<times> int \<Rightarrow> (splay_Node \<times> int) option" where
  "search_finish k p =
     (case p of (td, rt, fnd) \<Rightarrow>
        (case rt of
           NULL \<Rightarrow> None
         | Node rk rs rl rr \<Rightarrow> do {
             SPLAY_ASSERT (1 = fnd \<or> LESSKEY rk k \<or> KEYLESS k rk);
             SPLAY_ASSERT (0 = fnd \<or> k = rk);
             td1 \<leftarrow> (if \<not> is_td_history_blank td then topdown_set_aside td else Some td);
             Some (Node rk rs (store_left_tip (rem0 td1) rl) (store_right_tip (rem1 td1) rr), fnd)
           }))"

definition search_and_splay :: "splay_Node \<Rightarrow> splay_Key \<Rightarrow> (splay_Node \<times> int) option" where
  "search_and_splay rt0 k =
     (if rt0 = NULL then Some (NULL, 0)
      else search_loop initialize_topdown rt0 k \<bind> search_finish k)"

definition splay_find :: "tree_handle \<Rightarrow> splay_Key \<Rightarrow> (splay_Result \<times> tree_handle) option" where
  "splay_find t k =
     (case t of
        None \<Rightarrow> Some (SPLAY_BLANK_RESULT, None)
      | Some tr \<Rightarrow> do {
          (rt, fnd) \<leftarrow> search_and_splay (root tr) k;
          (if fnd \<noteq> 0 then
             (case rt of
                NULL \<Rightarrow> None
              | Node rk rs rl rr \<Rightarrow>
                  Some (\<lparr>found = fnd, key = k, sat = rs\<rparr>, Some (tr\<lparr>root := rt\<rparr>)))
           else Some (SPLAY_BLANK_RESULT\<lparr>found := fnd\<rparr>, Some (tr\<lparr>root := rt\<rparr>)))
        })"

subsection \<open>splay_min and splay_max\<close>

definition min_body :: "splay_Topdown \<Rightarrow> splay_Node \<Rightarrow> (splay_Topdown \<times> splay_Node) option" where
  "min_body td rt =
     do {
       (td1, rt1) \<leftarrow> STEP_LEFT_FIRST td rt;
       (case rt1 of
          NULL \<Rightarrow> None
        | Node k s l r \<Rightarrow> if l \<noteq> NULL then STEP_LEFT_2ND td1 rt1 else Some (td1, rt1))
     }"

lemma min_body_descends: "min_body td rt = Some (td1, rt1) \<Longrightarrow> node_count rt1 < node_count rt"
  by (auto simp: min_body_def STEP_LEFT_FIRST_def STEP_LEFT_2ND_def
      split: splay_Node.splits if_splits bind_splits)

function min_loop :: "splay_Topdown \<Rightarrow> splay_Node \<Rightarrow> (splay_Topdown \<times> splay_Node) option" where
  "min_loop td rt =
     (case rt of
        NULL \<Rightarrow> None
      | Node k s l r \<Rightarrow>
          if l \<noteq> NULL then
            (case min_body td rt of
               None \<Rightarrow> None
             | Some (td1, rt1) \<Rightarrow>
                 (case topdown_set_aside td1 of
                    None \<Rightarrow> None
                  | Some td2 \<Rightarrow> min_loop td2 rt1))
          else Some (td, rt))"
  by pat_completeness auto
termination
  by (relation "measure (\<lambda>(td, rt). node_count rt)") (auto dest: min_body_descends)

declare min_loop.simps [simp del]

definition splay_min :: "tree_handle \<Rightarrow> (splay_Result \<times> tree_handle) option" where
  "splay_min t =
     (case t of
        None \<Rightarrow> Some (SPLAY_BLANK_RESULT\<lparr>found := 0\<rparr>, None)
      | Some tr \<Rightarrow>
          if root tr = NULL then Some (SPLAY_BLANK_RESULT\<lparr>found := 0\<rparr>, Some tr)
          else do {
            (td, rt) \<leftarrow> min_loop initialize_topdown (root tr);
            (case rt of
               NULL \<Rightarrow> None
             | Node rk rs rl rr \<Rightarrow> do {
                 SPLAY_ASSERT (rl = NULL);
                 SPLAY_ASSERT (rem0 td = NULL);
                 Some (\<lparr>found = 1, key = rk, sat = rs\<rparr>,
                       Some (tr\<lparr>root := Node rk rs rl (store_right_tip (rem1 td) rr)\<rparr>))
               })
          })"

definition max_body :: "splay_Topdown \<Rightarrow> splay_Node \<Rightarrow> (splay_Topdown \<times> splay_Node) option" where
  "max_body td rt =
     do {
       (td1, rt1) \<leftarrow> STEP_RIGHT_FIRST td rt;
       (case rt1 of
          NULL \<Rightarrow> None
        | Node k s l r \<Rightarrow> if r \<noteq> NULL then STEP_RIGHT_2ND td1 rt1 else Some (td1, rt1))
     }"

lemma max_body_descends: "max_body td rt = Some (td1, rt1) \<Longrightarrow> node_count rt1 < node_count rt"
  by (auto simp: max_body_def STEP_RIGHT_FIRST_def STEP_RIGHT_2ND_def
      split: splay_Node.splits if_splits bind_splits)

function max_loop :: "splay_Topdown \<Rightarrow> splay_Node \<Rightarrow> (splay_Topdown \<times> splay_Node) option" where
  "max_loop td rt =
     (case rt of
        NULL \<Rightarrow> None
      | Node k s l r \<Rightarrow>
          if r \<noteq> NULL then
            (case max_body td rt of
               None \<Rightarrow> None
             | Some (td1, rt1) \<Rightarrow>
                 (case topdown_set_aside td1 of
                    None \<Rightarrow> None
                  | Some td2 \<Rightarrow> max_loop td2 rt1))
          else Some (td, rt))"
  by pat_completeness auto
termination
  by (relation "measure (\<lambda>(td, rt). node_count rt)") (auto dest: max_body_descends)

declare max_loop.simps [simp del]

definition splay_max :: "tree_handle \<Rightarrow> (splay_Result \<times> tree_handle) option" where
  "splay_max t =
     (case t of
        None \<Rightarrow> Some (SPLAY_BLANK_RESULT\<lparr>found := 0\<rparr>, None)
      | Some tr \<Rightarrow>
          if root tr = NULL then Some (SPLAY_BLANK_RESULT\<lparr>found := 0\<rparr>, Some tr)
          else do {
            (td, rt) \<leftarrow> max_loop initialize_topdown (root tr);
            (case rt of
               NULL \<Rightarrow> None
             | Node rk rs rl rr \<Rightarrow> do {
                 SPLAY_ASSERT (rr = NULL);
                 SPLAY_ASSERT (rem1 td = NULL);
                 Some (\<lparr>found = 1, key = rk, sat = rs\<rparr>,
                       Some (tr\<lparr>root := Node rk rs (store_left_tip (rem0 td) rl) rr\<rparr>))
               })
          })"

subsection \<open>splay_erase\<close>

text \<open>
  The out-parameter \<^verbatim>\<open>psat\<close> is \<open>None\<close> for a null pointer and \<open>Some v\<close> for a pointer
  to a cell holding \<open>v\<close>; the cell's content after the call is returned.
\<close>

definition splay_erase ::
  "allocator \<Rightarrow> tree_handle \<Rightarrow> splay_Key \<Rightarrow> splay_Satellite option
     \<Rightarrow> (exit_status \<times> allocator \<times> tree_handle \<times> splay_Satellite option) option" where
  "splay_erase a t k psat =
     do {
       (r, t1) \<leftarrow> splay_find t k;
       (if found r = 0 then Some (EXIT_FAILURE, a, t1, psat)
        else do {
          SPLAY_ASSERT (key r = k);
          (case t1 of
             None \<Rightarrow> None
           | Some tr \<Rightarrow>
               (case root tr of
                  NULL \<Rightarrow> None
                | Node dk ds dl dr \<Rightarrow> do {
                    SPLAY_ASSERT (dk = k);
                    SPLAY_ASSERT (sat r = ds);
                    psat1 \<leftarrow> Some (if psat \<noteq> None then Some (sat r) else psat);
                    tr2 \<leftarrow>
                      (if dr \<noteq> NULL then do {
                         (succ, t2) \<leftarrow> splay_min (Some (tr\<lparr>root := dr\<rparr>));
                         (case t2 of
                            None \<Rightarrow> None
                          | Some tr1 \<Rightarrow>
                              (case root tr1 of
                                 NULL \<Rightarrow> None
                               | Node mk ms ml mr \<Rightarrow> do {
                                   SPLAY_ASSERT (found succ \<noteq> 0 \<and> ml = NULL);
                                   Some (tr1\<lparr>root := Node mk ms dl mr\<rparr>)
                                 }))
                       }
                       else Some (tr\<lparr>root := dl\<rparr>));
                    Some (EXIT_SUCCESS, FREENODE a, Some (tr2\<lparr>size_fld := size_fld tr2 - 1\<rparr>), psat1)
                  }))
        })
     }"

subsection \<open>splay_insert and splay_update\<close>

definition is_bst_leaf :: "splay_Node \<Rightarrow> bool" where
  "is_bst_leaf n = (case n of NULL \<Rightarrow> False | Node k s l r \<Rightarrow> l = NULL \<and> r = NULL)"

definition insert_body ::
  "splay_Topdown \<Rightarrow> splay_Node \<Rightarrow> splay_Key \<Rightarrow> (splay_Topdown \<times> splay_Node) option" where
  "insert_body td rt nk =
     (case rt of
        NULL \<Rightarrow> None
      | Node k1 s1 l1 r1 \<Rightarrow> do {
          (td1, rt1) \<leftarrow> (if LESSKEY k1 nk then STEP_RIGHT_FIRST td rt else STEP_LEFT_FIRST td rt);
          (case rt1 of
             NULL \<Rightarrow> Some (td1, rt1)
           | Node k2 s2 l2 r2 \<Rightarrow>
               if LESSKEY k2 nk then STEP_RIGHT_2ND td1 rt1 else STEP_LEFT_2ND td1 rt1)
        })"

lemma insert_body_descends:
  "insert_body td rt nk = Some (td1, rt1) \<Longrightarrow> node_count rt1 < node_count rt"
  by (auto simp: insert_body_def STEP_RIGHT_FIRST_def STEP_LEFT_FIRST_def STEP_RIGHT_2ND_def
        STEP_LEFT_2ND_def
      split: splay_Node.splits if_splits bind_splits)

function insert_loop :: "splay_Topdown \<Rightarrow> splay_Node \<Rightarrow> splay_Key \<Rightarrow> splay_Topdown option" where
  "insert_loop td rt nk =
     (if rt \<noteq> NULL then
        (case insert_body td rt nk of
           None \<Rightarrow> None
         | Some (td1, rt1) \<Rightarrow>
             (case topdown_set_aside td1 of
                None \<Rightarrow> None
              | Some td2 \<Rightarrow> insert_loop td2 rt1 nk))
      else Some td)"
  by pat_completeness auto
termination
  by (relation "measure (\<lambda>(td, rt, nk). node_count rt)") (auto dest: insert_body_descends)

declare insert_loop.simps [simp del]

definition insert_and_splay :: "splay_Node \<Rightarrow> splay_Node \<Rightarrow> splay_Node option" where
  "insert_and_splay rt n =
     (if rt = NULL then Some n
      else
        (case n of
           NULL \<Rightarrow> None
         | Node nk ns nl nr \<Rightarrow> do {
             td \<leftarrow> insert_loop initialize_topdown rt nk;
             SPLAY_ASSERT (is_bst_leaf n);
             Some (Node nk ns (rem0 td) (rem1 td))
           }))"

text \<open>
  \<^verbatim>\<open>SPLAY_ASSERT(n == t -> root)\<close> compares two pointers. Nodes carry no address here, so
  the comparison is made on what the pointee owns for itself: its key and satellite.
\<close>

definition same_node :: "splay_Node \<Rightarrow> splay_Node \<Rightarrow> bool" where
  "same_node p q =
     (case p of
        NULL \<Rightarrow> q = NULL
      | Node pk ps pl pr \<Rightarrow> (case q of NULL \<Rightarrow> False | Node qk qs ql qr \<Rightarrow> pk = qk \<and> ps = qs))"

definition splay_insert ::
  "allocator \<Rightarrow> tree_handle \<Rightarrow> splay_Key \<Rightarrow> splay_Satellite
     \<Rightarrow> (exit_status \<times> allocator \<times> tree_handle) option" where
  "splay_insert a t k s =
     (case node_ctor a k s of
        (n, a1) \<Rightarrow>
          if n = NULL then Some (EXIT_FAILURE, a1, t)
          else
            (case t of
               None \<Rightarrow> None
             | Some tr \<Rightarrow> do {
                 rt \<leftarrow> insert_and_splay (root tr) n;
                 SPLAY_ASSERT (same_node n rt);
                 Some (EXIT_SUCCESS, a1, Some (tr\<lparr>root := rt, size_fld := size_fld tr + 1\<rparr>))
               }))"

definition splay_update ::
  "tree_handle \<Rightarrow> splay_Key \<Rightarrow> splay_Satellite \<Rightarrow> (exit_status \<times> tree_handle) option" where
  "splay_update t k s =
     (case t of
        None \<Rightarrow> None
      | Some tr \<Rightarrow> do {
          (rt, fnd) \<leftarrow> search_and_splay (root tr) k;
          (if fnd \<noteq> 0 then
             (case rt of
                NULL \<Rightarrow> None
              | Node rk rs rl rr \<Rightarrow> do {
                  SPLAY_ASSERT (k = rk);
                  Some (EXIT_SUCCESS, Some (tr\<lparr>root := Node rk s rl rr\<rparr>))
                })
           else Some (EXIT_FAILURE, Some (tr\<lparr>root := rt\<rparr>)))
        })"

subsection \<open>Construction, destruction, copy and move\<close>

definition splay_tree_empty_ctor :: "tree_handle \<Rightarrow> exit_status \<times> tree_handle" where
  "splay_tree_empty_ctor t =
     (case t of
        None \<Rightarrow> (EXIT_FAILURE, None)
      | Some tr \<Rightarrow> (EXIT_SUCCESS, Some (tr\<lparr>root := NULL, size_fld := 0\<rparr>)))"

fun splay_dtor_helper :: "allocator \<Rightarrow> splay_Node \<Rightarrow> allocator" where
  "splay_dtor_helper a NULL = a"
| "splay_dtor_helper a (Node k s l r) = FREENODE (splay_dtor_helper (splay_dtor_helper a l) r)"

definition splay_tree_clear :: "allocator \<Rightarrow> tree_handle \<Rightarrow> exit_status \<times> allocator \<times> tree_handle" where
  "splay_tree_clear a t =
     (let a1 = (case t of None \<Rightarrow> a | Some tr \<Rightarrow> splay_dtor_helper a (root tr))
      in (case splay_tree_empty_ctor t of (rc, t1) \<Rightarrow> (rc, a1, t1)))"

definition splay_tree_dtor :: "allocator \<Rightarrow> tree_handle \<Rightarrow> allocator \<times> tree_handle" where
  "splay_tree_dtor a t = (case splay_tree_clear a t of (rc, a1, t1) \<Rightarrow> (a1, t1))"

text \<open>
  \<^verbatim>\<open>copy_helper(ni, no)\<close>: the second component of the result is the value stored to
  \<^verbatim>\<open>*no\<close>, or \<open>None\<close> when the call returns without storing to it. The locals \<^verbatim>\<open>l\<close> and
  \<^verbatim>\<open>r\<close> start uninitialised; reading one that no callee has written is an abort.
\<close>

fun copy_helper ::
  "allocator \<Rightarrow> splay_Node \<Rightarrow> (exit_status \<times> splay_Node option \<times> allocator) option" where
  "copy_helper a NULL = Some (EXIT_SUCCESS, Some NULL, a)"
| "copy_helper a (Node k s lt rt) =
     (case copy_helper a lt of
        None \<Rightarrow> None
      | Some (EXIT_FAILURE, wl, a1) \<Rightarrow> Some (EXIT_FAILURE, None, a1)
      | Some (EXIT_SUCCESS, wl, a1) \<Rightarrow>
          (case copy_helper a1 rt of
             None \<Rightarrow> None
           | Some (EXIT_FAILURE, wr, a2) \<Rightarrow>
               (case wl of
                  None \<Rightarrow> None
                | Some l \<Rightarrow> Some (EXIT_FAILURE, None, splay_dtor_helper a2 l))
           | Some (EXIT_SUCCESS, wr, a2) \<Rightarrow>
               (case node_ctor a2 k s of
                  (n, a3) \<Rightarrow>
                    (case n of
                       NULL \<Rightarrow>
                         (case (wl, wr) of
                            (Some l, Some r) \<Rightarrow>
                              Some (EXIT_FAILURE, Some NULL,
                                    splay_dtor_helper (splay_dtor_helper a3 l) r)
                          | _ \<Rightarrow> None)
                     | Node nk ns nl nr \<Rightarrow>
                         (case (wl, wr) of
                            (Some l, Some r) \<Rightarrow> Some (EXIT_SUCCESS, Some (Node nk ns l r), a3)
                          | _ \<Rightarrow> None)))))"

text \<open>
  \<^verbatim>\<open>splay_tree_copy(ti, to)\<close> and \<^verbatim>\<open>splay_tree_move(ti, to)\<close>, for two distinct tree
  objects. The source tree of a copy is \<^verbatim>\<open>const\<close> and is not returned.
\<close>

definition splay_tree_copy ::
  "allocator \<Rightarrow> tree_handle \<Rightarrow> tree_handle \<Rightarrow> (exit_status \<times> allocator \<times> tree_handle) option" where
  "splay_tree_copy a ti to =
     (case (ti, to) of
        (Some tin, Some tout) \<Rightarrow>
          if root tout \<noteq> NULL then Some (EXIT_FAILURE, a, to)
          else do {
            SPLAY_ASSERT (0 = size_fld tout);
            tout1 \<leftarrow> Some (tout\<lparr>size_fld := size_fld tin\<rparr>);
            (rc, w, a1) \<leftarrow> copy_helper a (root tin);
            Some (rc, a1, Some (case w of None \<Rightarrow> tout1 | Some n \<Rightarrow> tout1\<lparr>root := n\<rparr>))
          }
      | _ \<Rightarrow> Some (EXIT_FAILURE, a, to))"

definition splay_tree_move ::
  "tree_handle \<Rightarrow> tree_handle \<Rightarrow> (exit_status \<times> tree_handle \<times> tree_handle) option" where
  "splay_tree_move ti to =
     (case (ti, to) of
        (Some tin, Some tout) \<Rightarrow>
          if root tout \<noteq> NULL then Some (EXIT_FAILURE, ti, to)
          else do {
            SPLAY_ASSERT (0 = size_fld tout);
            Some (EXIT_SUCCESS,
                  Some (tin\<lparr>size_fld := 0, root := NULL\<rparr>),
                  Some (tout\<lparr>size_fld := size_fld tin, root := root tin\<rparr>))
          }
      | _ \<Rightarrow> Some (EXIT_FAILURE, ti, to))"

subsection \<open>splay_health_check\<close>

text \<open>
  The diagnostic text that the checks print into \<^verbatim>\<open>buf\<close> is not modelled; the functions
  below return what the source returns. They take \<^verbatim>\<open>const\<close> pointers and contain no
  store to the tree.
\<close>

fun breaks_bst_property :: "splay_Node \<Rightarrow> splay_Key \<Rightarrow> splay_Key \<Rightarrow> bool" where
  "breaks_bst_property NULL minkey maxkey = False"
| "breaks_bst_property (Node k s l r) minkey maxkey =
     (if LESSKEY k minkey \<or> KEYLESS maxkey k then True
      else breaks_bst_property l minkey k \<or> breaks_bst_property r k maxkey)"

fun splay_nodecount :: "splay_Node \<Rightarrow> 32 word" where
  "splay_nodecount NULL = 0"
| "splay_nodecount (Node k s l r) = 1 + splay_nodecount l + splay_nodecount r"

definition splay_size_failure :: "tree_handle \<Rightarrow> bool option" where
  "splay_size_failure t =
     (case t of
        None \<Rightarrow> None
      | Some tr \<Rightarrow>
          if root tr \<noteq> NULL \<and> 0 = size_fld tr then Some True
          else if NULL = root tr \<and> size_fld tr \<noteq> 0 then Some True
          else if size_fld tr \<noteq> splay_nodecount (root tr) then Some True
          else Some False)"

definition splay_health_check :: "tree_handle \<Rightarrow> exit_status option" where
  "splay_health_check t =
     (case t of
        None \<Rightarrow> Some EXIT_SUCCESS
      | Some tr \<Rightarrow>
          if 0 = size_fld tr \<and> NULL = root tr then Some EXIT_SUCCESS
          else do {
            sf \<leftarrow> splay_size_failure t;
            (if sf then Some EXIT_FAILURE
             else if breaks_bst_property (root tr) INT_MIN INT_MAX then Some EXIT_FAILURE
             else Some EXIT_SUCCESS)
          })"

section \<open>Abstraction: records in symmetric order, ordering, counting\<close>

fun inorder :: "splay_Node \<Rightarrow> (splay_Key \<times> splay_Satellite) list" where
  "inorder NULL = []"
| "inorder (Node k s l r) = inorder l @ (k, s) # inorder r"

definition keys_of :: "splay_Node \<Rightarrow> splay_Key list" where
  "keys_of t = map fst (inorder t)"

text \<open>
  The BST-ordering property as the specification words it: at every node, every key of
  the left subtree is at most the node's key, which is at most every key of the right
  subtree (keys compared as the signed integers they are).
\<close>

fun bst_ordered :: "splay_Node \<Rightarrow> bool" where
  "bst_ordered NULL = True"
| "bst_ordered (Node k s l r) =
     ((\<forall>x \<in> set (keys_of l). sint x \<le> sint k) \<and> (\<forall>x \<in> set (keys_of r). sint k \<le> sint x)
      \<and> bst_ordered l \<and> bst_ordered r)"

text \<open>
  The search path as the specification words it: compare the key at the node; go right
  when the node's key is less, left when it is greater, stop on equality; stop at the node
  whose child in that direction is absent. The result is the record of the node compared
  last.
\<close>

fun last_compared :: "splay_Node \<Rightarrow> splay_Key \<Rightarrow> (splay_Key \<times> splay_Satellite) option" where
  "last_compared NULL k = None"
| "last_compared (Node nk ns l r) k =
     (if sint nk < sint k then (if r = NULL then Some (nk, ns) else last_compared r k)
      else if sint k < sint nk then (if l = NULL then Some (nk, ns) else last_compared l k)
      else Some (nk, ns))"

definition root_record :: "splay_Node \<Rightarrow> (splay_Key \<times> splay_Satellite) option" where
  "root_record t = (case t of NULL \<Rightarrow> None | Node k s l r \<Rightarrow> Some (k, s))"

subsection \<open>Sequences of dictionary operations\<close>

datatype dict_op =
    Insert splay_Key splay_Satellite
  | Update splay_Key splay_Satellite
  | Erase splay_Key "splay_Satellite option"
  | Find splay_Key
  | Min
  | Max

definition apply_op :: "allocator \<times> tree_handle \<Rightarrow> dict_op \<Rightarrow> (allocator \<times> tree_handle) option" where
  "apply_op st oper =
     (case st of (a, t) \<Rightarrow>
        (case oper of
           Insert k s \<Rightarrow> splay_insert a t k s \<bind> (\<lambda>(rc, a1, t1). Some (a1, t1))
         | Update k s \<Rightarrow> splay_update t k s \<bind> (\<lambda>(rc, t1). Some (a, t1))
         | Erase k psat \<Rightarrow> splay_erase a t k psat \<bind> (\<lambda>(rc, a1, t1, out). Some (a1, t1))
         | Find k \<Rightarrow> splay_find t k \<bind> (\<lambda>(r, t1). Some (a, t1))
         | Min \<Rightarrow> splay_min t \<bind> (\<lambda>(r, t1). Some (a, t1))
         | Max \<Rightarrow> splay_max t \<bind> (\<lambda>(r, t1). Some (a, t1))))"

fun run_ops :: "allocator \<times> tree_handle \<Rightarrow> dict_op list \<Rightarrow> (allocator \<times> tree_handle) option" where
  "run_ops st [] = Some st"
| "run_ops st (oper # opers) = apply_op st oper \<bind> (\<lambda>st1. run_ops st1 opers)"

text \<open>A tree object as \<^verbatim>\<open>splay_tree_empty_ctor\<close> leaves it.\<close>

definition empty_tree :: splay_Tree where
  "empty_tree = \<lparr>root = NULL, size_fld = 0\<rparr>"

section \<open>The cursor preserves the symmetric order\<close>

lemma inorder_store_left_tip [simp]: "inorder (store_left_tip a n) = inorder a @ inorder n"
  by (induction a) auto

lemma inorder_store_right_tip [simp]: "inorder (store_right_tip a n) = inorder n @ inorder a"
  by (induction a) auto

lemmas step_defs = STEP_RIGHT_FIRST_def STEP_LEFT_FIRST_def STEP_RIGHT_2ND_def STEP_LEFT_2ND_def

lemmas cursor_defs = topdown_set_aside_def update_left_tip_def update_right_tip_def
  initialize_td_history_def undo_first_step_def undo_2nd_step_def SPLAY_ASSERT_def
  is_td_history_blank_def

lemmas search_defs = search_body_def search_after_first_def search_after_2nd_def

lemma key_eq: "\<not> LESSKEY a b \<Longrightarrow> \<not> KEYLESS b a \<Longrightarrow> b = a"
  by (auto simp: LESSKEY_def KEYLESS_def intro: signed_word_eqI)

lemma search_body_not_None:
  "rt \<noteq> NULL \<Longrightarrow> history td = (\<lambda>i. NULL) \<Longrightarrow> search_body td rt k \<noteq> None"
  by (auto simp: search_defs step_defs cursor_defs split: splay_Node.splits)

lemma search_body_Continue:
  assumes "history td = (\<lambda>i. NULL)" "search_body td rt k = Some (Continue td1 rt1)"
  shows "\<exists>td2. topdown_set_aside td1 = Some td2 \<and> history td2 = (\<lambda>i. NULL) \<and> rt1 \<noteq> NULL \<and>
     inorder (rem0 td2) @ inorder rt1 @ inorder (rem1 td2)
       = inorder (rem0 td) @ inorder rt @ inorder (rem1 td)"
  using assms
  by (auto simp: search_defs step_defs cursor_defs split: splay_Node.splits if_splits)

lemma search_body_Break:
  assumes "history td = (\<lambda>i. NULL)" "search_body td rt k = Some (Break td1 rt1 f)"
  shows "\<exists>res. search_finish k (td1, rt1, f) = Some (res, f) \<and>
     inorder res = inorder (rem0 td) @ inorder rt @ inorder (rem1 td)"
  using assms
  by (auto simp: search_defs step_defs cursor_defs search_finish_def dest: key_eq
      split: splay_Node.splits if_splits)

lemma search_loop_total:
  "rt \<noteq> NULL \<Longrightarrow> history td = (\<lambda>i. NULL) \<Longrightarrow>
   \<exists>res f. (search_loop td rt k \<bind> search_finish k) = Some (res, f) \<and>
     inorder res = inorder (rem0 td) @ inorder rt @ inorder (rem1 td)"
proof (induction td rt k rule: search_loop.induct)
  case (1 td rt k)
  show ?case
  proof (cases "search_body td rt k")
    case None
    with 1 show ?thesis using search_body_not_None by blast
  next
    case (Some st)
    show ?thesis
    proof (cases st)
      case (Break td1 rt1 f)
      with Some 1(3) search_body_Break [of td rt k td1 rt1 f] show ?thesis
        by (subst search_loop.simps) auto
    next
      case (Continue td1 rt1)
      with Some 1(3) search_body_Continue [of td rt k td1 rt1]
      obtain td2 where td2: "topdown_set_aside td1 = Some td2" "history td2 = (\<lambda>i. NULL)"
        "rt1 \<noteq> NULL"
        "inorder (rem0 td2) @ inorder rt1 @ inorder (rem1 td2)
           = inorder (rem0 td) @ inorder rt @ inorder (rem1 td)"
        by blast
      from 1(1) [OF Some Continue td2(1) td2(3) td2(2)] td2(4) Some Continue td2(1)
      show ?thesis
        by (subst search_loop.simps) auto
    qed
  qed
qed

lemma bst_ordered_iff_sorted: "bst_ordered t \<longleftrightarrow> sorted (map sint (keys_of t))"
proof (induction t)
  case NULL
  show ?case by (simp add: keys_of_def)
next
  case (Node k s l r)
  have "(\<forall>x\<in>set (keys_of l). \<forall>y\<in>set (keys_of r). sint x \<le> sint y)"
    if "\<forall>x\<in>set (keys_of l). sint x \<le> sint k" "\<forall>x\<in>set (keys_of r). sint k \<le> sint x"
    using that by (meson order_trans)
  with Node show ?case
    by (auto simp: keys_of_def sorted_append)
qed

lemma insert_body_not_None: "rt \<noteq> NULL \<Longrightarrow> insert_body td rt nk \<noteq> None"
  by (auto simp: insert_body_def step_defs split: splay_Node.splits)

lemma insert_body_step:
  assumes "history td = (\<lambda>i. NULL)" "insert_body td rt nk = Some (td1, rt1)"
  shows "\<exists>td2. topdown_set_aside td1 = Some td2 \<and> history td2 = (\<lambda>i. NULL) \<and>
     inorder (rem0 td2) @ inorder rt1 @ inorder (rem1 td2)
       = inorder (rem0 td) @ inorder rt @ inorder (rem1 td)"
  using assms
  by (auto simp: insert_body_def step_defs cursor_defs split: splay_Node.splits if_splits)

lemma min_body_not_None: "rt = Node k s l r \<Longrightarrow> l \<noteq> NULL \<Longrightarrow> min_body td rt \<noteq> None"
  by (auto simp: min_body_def step_defs split: splay_Node.splits)

lemma min_body_step:
  assumes "history td = (\<lambda>i. NULL)" "min_body td rt = Some (td1, rt1)"
  shows "\<exists>td2. topdown_set_aside td1 = Some td2 \<and> history td2 = (\<lambda>i. NULL) \<and> rt1 \<noteq> NULL \<and>
     rem0 td2 = rem0 td \<and>
     inorder rt1 @ inorder (rem1 td2) = inorder rt @ inorder (rem1 td)"
  using assms
  by (auto simp: min_body_def step_defs cursor_defs split: splay_Node.splits if_splits)

lemma max_body_not_None: "rt = Node k s l r \<Longrightarrow> r \<noteq> NULL \<Longrightarrow> max_body td rt \<noteq> None"
  by (auto simp: max_body_def step_defs split: splay_Node.splits)

lemma max_body_step:
  assumes "history td = (\<lambda>i. NULL)" "max_body td rt = Some (td1, rt1)"
  shows "\<exists>td2. topdown_set_aside td1 = Some td2 \<and> history td2 = (\<lambda>i. NULL) \<and> rt1 \<noteq> NULL \<and>
     rem1 td2 = rem1 td \<and>
     inorder (rem0 td2) @ inorder rt1 = inorder (rem0 td) @ inorder rt"
  using assms
  by (auto simp: max_body_def step_defs cursor_defs split: splay_Node.splits if_splits)

section \<open>Null tree handles\<close>

text \<open>
  Claim C10. Given a null tree pointer, \<^verbatim>\<open>splay_find\<close> returns the blank result
  (found 0, key 0, null satellite) for every key, and \<^verbatim>\<open>splay_min\<close> and
  \<^verbatim>\<open>splay_max\<close> return found 0 as well. None of them aborts, and the result type has
  no error channel: the null handle is answered by a quiet not-found.
\<close>

theorem null_handle_quiet_not_found:
  "splay_find None k = Some (\<lparr>found = 0, key = 0, sat = None\<rparr>, None)
   \<and> splay_min None = Some (\<lparr>found = 0, key = 0, sat = None\<rparr>, None)
   \<and> splay_max None = Some (\<lparr>found = 0, key = 0, sat = None\<rparr>, None)"
  by (simp add: splay_find_def splay_min_def splay_max_def SPLAY_BLANK_RESULT_def)

section \<open>What search_and_splay returns\<close>

lemma search_body_Break_last:
  assumes "history td = (\<lambda>i. NULL)" "search_body td rt k = Some (Break td1 rt1 f)"
  shows "root_record rt1 = last_compared rt k \<and> (f = 0 \<or> f = 1)"
  using assms
  by (auto simp: search_defs step_defs cursor_defs root_record_def LESSKEY_def KEYLESS_def
      split: splay_Node.splits if_splits)

lemma search_body_Continue_last:
  assumes "search_body td rt k = Some (Continue td1 rt1)"
  shows "last_compared rt1 k = last_compared rt k"
  using assms
  by (auto simp: search_defs step_defs cursor_defs LESSKEY_def KEYLESS_def
      split: splay_Node.splits if_splits)

lemma search_loop_last:
  "history td = (\<lambda>i. NULL) \<Longrightarrow> search_loop td rt k = Some (td', rt', f) \<Longrightarrow>
   root_record rt' = last_compared rt k \<and> (f = 0 \<or> f = 1)"
proof (induction td rt k rule: search_loop.induct)
  case (1 td rt k)
  from 1(3) obtain st where st: "search_body td rt k = Some st"
    by (subst (asm) search_loop.simps) (auto split: option.splits)
  show ?case
  proof (cases st)
    case (Break td1 rt1 f1)
    with st 1(3) have "td' = td1" "rt' = rt1" "f = f1"
      by (subst (asm) search_loop.simps, simp)+
    with search_body_Break_last [OF 1(2)] st Break show ?thesis by blast
  next
    case (Continue td1 rt1)
    with st 1(2) search_body_Continue [of td rt k td1 rt1]
    obtain td2 where td2: "topdown_set_aside td1 = Some td2" "history td2 = (\<lambda>i. NULL)"
      by blast
    from 1(3) st Continue td2(1) have "search_loop td2 rt1 k = Some (td', rt', f)"
      by (subst (asm) search_loop.simps) simp
    from 1(1) [OF st Continue td2(1) td2(2) this]
    have "root_record rt' = last_compared rt1 k \<and> (f = 0 \<or> f = 1)" .
    moreover from st Continue have "last_compared rt1 k = last_compared rt k"
      by (simp add: search_body_Continue_last)
    ultimately show ?thesis by simp
  qed
qed

lemma search_finish_root:
  assumes "search_finish k (td, rt, f) = Some (res, f')"
  shows "f' = f \<and> root_record res = root_record rt \<and>
    (\<forall>rk rs. root_record res = Some (rk, rs) \<longrightarrow> (f = 1 \<or> rk \<noteq> k) \<and> (f = 0 \<or> rk = k))"
  using assms
  by (auto simp: search_finish_def root_record_def SPLAY_ASSERT_def LESSKEY_def KEYLESS_def
      split: splay_Node.splits if_splits bind_splits)

lemma search_and_splay_spec:
  assumes "rt \<noteq> NULL"
  shows "\<exists>rk rs l r f. search_and_splay rt k = Some (Node rk rs l r, f) \<and>
     inorder (Node rk rs l r) = inorder rt \<and> last_compared rt k = Some (rk, rs) \<and>
     (f = 1 \<or> f = 0 \<and> rk \<noteq> k) \<and> (f = 0 \<or> rk = k)"
proof -
  have blank: "history initialize_topdown = (\<lambda>i. NULL)"
    by (simp add: initialize_topdown_def)
  from search_loop_total [OF assms blank, of k]
  obtain res f where res: "(search_loop initialize_topdown rt k \<bind> search_finish k) = Some (res, f)"
    "inorder res = inorder rt"
    by (auto simp: initialize_topdown_def)
  then obtain td' rt' f' where lp: "search_loop initialize_topdown rt k = Some (td', rt', f')"
    "search_finish k (td', rt', f') = Some (res, f)"
    by (auto split: bind_splits)
  from search_loop_last [OF blank lp(1)] search_finish_root [OF lp(2)]
  have facts: "f = f'" "root_record res = last_compared rt k" "f = 0 \<or> f = 1"
    "\<forall>rk rs. root_record res = Some (rk, rs) \<longrightarrow> (f' = 1 \<or> rk \<noteq> k) \<and> (f' = 0 \<or> rk = k)"
    by auto
  from assms res(2) obtain rk rs l r where shape: "res = Node rk rs l r"
    by (cases res; cases rt) auto
  from facts(2) shape have lc: "last_compared rt k = Some (rk, rs)"
    by (simp add: root_record_def)
  from facts(4) shape have "(f' = 1 \<or> rk \<noteq> k) \<and> (f' = 0 \<or> rk = k)"
    by (simp add: root_record_def)
  with facts(1,3) have fl: "(f = 1 \<or> f = 0 \<and> rk \<noteq> k) \<and> (f = 0 \<or> rk = k)"
    by auto
  from res(1) shape assms have "search_and_splay rt k = Some (Node rk rs l r, f)"
    by (simp add: search_and_splay_def)
  with res(2) shape lc fl show ?thesis
    by blast
qed

lemma keys_of_Node [simp]: "keys_of (Node k s l r) = keys_of l @ k # keys_of r"
  by (simp add: keys_of_def)

lemma keys_of_NULL [simp]: "keys_of NULL = []"
  by (simp add: keys_of_def)

lemma last_compared_present:
  "bst_ordered rt \<Longrightarrow> k \<in> set (keys_of rt) \<Longrightarrow> \<exists>s. last_compared rt k = Some (k, s)"
proof (induction rt)
  case NULL
  then show ?case by simp
next
  case (Node nk ns l r)
  from Node.prems(1) have ord: "\<forall>x\<in>set (keys_of l). sint x \<le> sint nk"
    "\<forall>x\<in>set (keys_of r). sint nk \<le> sint x" "bst_ordered l" "bst_ordered r"
    by simp_all
  consider (lt) "sint nk < sint k" | (gt) "sint k < sint nk" | (eq) "sint k = sint nk"
    by linarith
  then show ?case
  proof cases
    case lt
    with ord(1) have "k \<notin> set (keys_of l)" by auto
    with lt Node.prems(2) have in_r: "k \<in> set (keys_of r)" by auto
    then have "r \<noteq> NULL" by auto
    with lt Node.IH(2) [OF ord(4) in_r] show ?thesis by simp
  next
    case gt
    with ord(2) have "k \<notin> set (keys_of r)" by auto
    with gt Node.prems(2) have in_l: "k \<in> set (keys_of l)" by auto
    then have "l \<noteq> NULL" by auto
    with gt Node.IH(1) [OF ord(3) in_l] show ?thesis by simp
  next
    case eq
    then have "k = nk" by (rule signed_word_eqI)
    then show ?thesis by simp
  qed
qed

lemma last_compared_member:
  "last_compared rt k = Some rec \<Longrightarrow> rec \<in> set (inorder rt)"
  by (induction rt) (auto split: if_splits)

section \<open>The loops of splay_min, splay_max and insert_and_splay\<close>

lemma min_loop_total:
  "rt \<noteq> NULL \<Longrightarrow> history td = (\<lambda>i. NULL) \<Longrightarrow>
   \<exists>td' mk ms mr. min_loop td rt = Some (td', Node mk ms NULL mr) \<and> rem0 td' = rem0 td \<and>
     (mk, ms) # inorder mr @ inorder (rem1 td') = inorder rt @ inorder (rem1 td)"
proof (induction td rt rule: min_loop.induct)
  case (1 td rt)
  from 1(2) obtain k s l r where rt: "rt = Node k s l r" by (cases rt) auto
  show ?case
  proof (cases "l = NULL")
    case True
    with rt show ?thesis by (subst min_loop.simps) simp
  next
    case False
    with rt min_body_not_None obtain td1 rt1 where body: "min_body td rt = Some (td1, rt1)"
      by fastforce
    from min_body_step [OF 1(3) body]
    obtain td2 where td2: "topdown_set_aside td1 = Some td2" "history td2 = (\<lambda>i. NULL)"
      "rt1 \<noteq> NULL" "rem0 td2 = rem0 td"
      "inorder rt1 @ inorder (rem1 td2) = inorder rt @ inorder (rem1 td)"
      by blast
    from 1(1) [OF rt False body refl td2(1) td2(3) td2(2)] td2(4,5)
    obtain td' mk ms mr where "min_loop td2 rt1 = Some (td', Node mk ms NULL mr)"
      "rem0 td' = rem0 td"
      "(mk, ms) # inorder mr @ inorder (rem1 td') = inorder rt @ inorder (rem1 td)"
      by auto
    moreover from rt False body td2(1) have "min_loop td rt = min_loop td2 rt1"
      by (subst min_loop.simps) simp
    ultimately show ?thesis by simp
  qed
qed

lemma max_loop_total:
  "rt \<noteq> NULL \<Longrightarrow> history td = (\<lambda>i. NULL) \<Longrightarrow>
   \<exists>td' mk ms ml. max_loop td rt = Some (td', Node mk ms ml NULL) \<and> rem1 td' = rem1 td \<and>
     inorder (rem0 td') @ inorder ml @ [(mk, ms)] = inorder (rem0 td) @ inorder rt"
proof (induction td rt rule: max_loop.induct)
  case (1 td rt)
  from 1(2) obtain k s l r where rt: "rt = Node k s l r" by (cases rt) auto
  show ?case
  proof (cases "r = NULL")
    case True
    with rt show ?thesis by (subst max_loop.simps) simp
  next
    case False
    with rt max_body_not_None obtain td1 rt1 where body: "max_body td rt = Some (td1, rt1)"
      by fastforce
    from max_body_step [OF 1(3) body]
    obtain td2 where td2: "topdown_set_aside td1 = Some td2" "history td2 = (\<lambda>i. NULL)"
      "rt1 \<noteq> NULL" "rem1 td2 = rem1 td"
      "inorder (rem0 td2) @ inorder rt1 = inorder (rem0 td) @ inorder rt"
      by blast
    from 1(1) [OF rt False body refl td2(1) td2(3) td2(2)] td2(4,5)
    obtain td' mk ms ml where "max_loop td2 rt1 = Some (td', Node mk ms ml NULL)"
      "rem1 td' = rem1 td"
      "inorder (rem0 td') @ inorder ml @ [(mk, ms)] = inorder (rem0 td) @ inorder rt"
      by auto
    moreover from rt False body td2(1) have "max_loop td rt = max_loop td2 rt1"
      by (subst max_loop.simps) simp
    ultimately show ?thesis by simp
  qed
qed

lemma insert_loop_total:
  "history td = (\<lambda>i. NULL) \<Longrightarrow>
   \<exists>td'. insert_loop td rt nk = Some td' \<and>
     inorder (rem0 td') @ inorder (rem1 td') = inorder (rem0 td) @ inorder rt @ inorder (rem1 td)"
proof (induction td rt nk rule: insert_loop.induct)
  case (1 td rt nk)
  show ?case
  proof (cases "rt = NULL")
    case True
    then show ?thesis by (subst insert_loop.simps) simp
  next
    case False
    with insert_body_not_None obtain td1 rt1 where body: "insert_body td rt nk = Some (td1, rt1)"
      by fastforce
    from insert_body_step [OF 1(2) body]
    obtain td2 where td2: "topdown_set_aside td1 = Some td2" "history td2 = (\<lambda>i. NULL)"
      "inorder (rem0 td2) @ inorder rt1 @ inorder (rem1 td2)
         = inorder (rem0 td) @ inorder rt @ inorder (rem1 td)"
      by blast
    from 1(1) [OF False body refl td2(1) td2(2)] td2(3)
    obtain td' where "insert_loop td2 rt1 nk = Some td'"
      "inorder (rem0 td') @ inorder (rem1 td') = inorder (rem0 td) @ inorder rt @ inorder (rem1 td)"
      by auto
    moreover from False body td2(1) have "insert_loop td rt nk = insert_loop td2 rt1 nk"
      by (subst insert_loop.simps) simp
    ultimately show ?thesis by simp
  qed
qed

lemma keys_of_store_left_tip [simp]:
  "keys_of (store_left_tip a n) = keys_of a @ keys_of n"
  by (simp add: keys_of_def)

lemma keys_of_store_right_tip [simp]:
  "keys_of (store_right_tip a n) = keys_of n @ keys_of a"
  by (simp add: keys_of_def)

lemma insert_body_part:
  assumes "history td = (\<lambda>i. NULL)" "insert_body td rt nk = Some (td1, rt1)"
    "topdown_set_aside td1 = Some td2"
    "inorder (rem0 td) = [] \<or> sint (fst (last (inorder (rem0 td)))) < sint nk"
    "inorder (rem1 td) = [] \<or> \<not> sint (fst (hd (inorder (rem1 td)))) < sint nk"
  shows "(inorder (rem0 td2) = [] \<or> sint (fst (last (inorder (rem0 td2)))) < sint nk)
     \<and> (inorder (rem1 td2) = [] \<or> \<not> sint (fst (hd (inorder (rem1 td2)))) < sint nk)"
  using assms
  by (auto simp: insert_body_def step_defs cursor_defs LESSKEY_def
      split: splay_Node.splits if_splits)

lemma insert_loop_part:
  "history td = (\<lambda>i. NULL) \<Longrightarrow> insert_loop td rt nk = Some td' \<Longrightarrow>
   inorder (rem0 td) = [] \<or> sint (fst (last (inorder (rem0 td)))) < sint nk \<Longrightarrow>
   inorder (rem1 td) = [] \<or> \<not> sint (fst (hd (inorder (rem1 td)))) < sint nk \<Longrightarrow>
   (inorder (rem0 td') = [] \<or> sint (fst (last (inorder (rem0 td')))) < sint nk)
     \<and> (inorder (rem1 td') = [] \<or> \<not> sint (fst (hd (inorder (rem1 td')))) < sint nk)"
proof (induction td rt nk rule: insert_loop.induct)
  case (1 td rt nk)
  show ?case
  proof (cases "rt = NULL")
    case True
    with 1(3) have "td' = td" by (subst (asm) insert_loop.simps) simp
    with 1(4,5) show ?thesis by simp
  next
    case False
    with insert_body_not_None obtain td1 rt1 where body: "insert_body td rt nk = Some (td1, rt1)"
      by fastforce
    from insert_body_step [OF 1(2) body]
    obtain td2 where td2: "topdown_set_aside td1 = Some td2" "history td2 = (\<lambda>i. NULL)"
      by blast
    from False body td2(1) 1(3) have lp: "insert_loop td2 rt1 nk = Some td'"
      by (subst (asm) insert_loop.simps) simp
    from insert_body_part [OF 1(2) body td2(1) 1(4,5)]
    have inv: "inorder (rem0 td2) = [] \<or> sint (fst (last (inorder (rem0 td2)))) < sint nk"
      "inorder (rem1 td2) = [] \<or> \<not> sint (fst (hd (inorder (rem1 td2)))) < sint nk"
      by simp_all
    from 1(1) [OF False body refl td2(1) td2(2) lp inv] show ?thesis .
  qed
qed

lemma sorted_split_filter:
  fixes xs ys :: "(splay_Key \<times> splay_Satellite) list"
  assumes "sorted (map (sint \<circ> fst) (xs @ ys))"
    "xs = [] \<or> sint (fst (last xs)) < c" "ys = [] \<or> \<not> sint (fst (hd ys)) < c"
  shows "(\<forall>p\<in>set xs. sint (fst p) < c) \<and> (\<forall>p\<in>set ys. \<not> sint (fst p) < c)
     \<and> filter (\<lambda>p. sint (fst p) < c) (xs @ ys) = xs
     \<and> filter (\<lambda>p. \<not> sint (fst p) < c) (xs @ ys) = ys"
proof -
  have xs: "\<forall>p\<in>set xs. sint (fst p) < c"
  proof (cases "xs = []")
    case True
    then show ?thesis by simp
  next
    case False
    with assms(2) have l: "sint (fst (last xs)) < c" by simp
    from False obtain zs z where zs: "xs = zs @ [z]" by (metis rev_exhaust)
    with assms(1) have "\<forall>p\<in>set zs. sint (fst p) \<le> sint (fst z)"
      by (auto simp: sorted_append)
    with l zs show ?thesis by auto
  qed
  have ys: "\<forall>p\<in>set ys. \<not> sint (fst p) < c"
  proof (cases ys)
    case Nil
    then show ?thesis by simp
  next
    case (Cons z zs)
    with assms(3) have l: "\<not> sint (fst z) < c" by simp
    from Cons assms(1) have "\<forall>p\<in>set zs. sint (fst z) \<le> sint (fst p)"
      by (auto simp: sorted_append)
    with l Cons show ?thesis by auto
  qed
  from xs ys show ?thesis by (simp add: filter_empty_conv)
qed

section \<open>What the dictionary operations return\<close>

lemma search_found_iff:
  assumes "rt \<noteq> NULL" "search_and_splay rt k = Some (res, f)"
  shows "(f = 1 \<or> f = 0) \<and> (f = 1 \<longrightarrow> k \<in> set (keys_of rt))
     \<and> (bst_ordered rt \<longrightarrow> k \<in> set (keys_of rt) \<longrightarrow> f = 1)"
proof -
  from search_and_splay_spec [OF assms(1), of k] assms(2)
  obtain rk rs l r where sp: "res = Node rk rs l r" "last_compared rt k = Some (rk, rs)"
    "f = 1 \<or> f = 0 \<and> rk \<noteq> k" "f = 0 \<or> rk = k"
    by auto
  from last_compared_member [OF sp(2)] have "rk \<in> set (keys_of rt)"
    by (force simp: keys_of_def)
  moreover have "f = 1" if "bst_ordered rt" "k \<in> set (keys_of rt)"
    using last_compared_present [OF that] sp(2,3) by auto
  ultimately show ?thesis using sp(3,4) by auto
qed

lemma splay_find_empty:
  "root tr = NULL \<Longrightarrow> splay_find (Some tr) k = Some (\<lparr>found = 0, key = 0, sat = None\<rparr>, Some tr)"
  by (simp add: splay_find_def search_and_splay_def SPLAY_BLANK_RESULT_def)

lemma splay_find_nonempty:
  assumes "root tr \<noteq> NULL"
  shows "\<exists>rk rs l r f. splay_find (Some tr) k =
       Some (\<lparr>found = f, key = (if f = 1 then k else 0), sat = (if f = 1 then rs else None)\<rparr>,
             Some (tr\<lparr>root := Node rk rs l r\<rparr>))
     \<and> inorder (Node rk rs l r) = inorder (root tr)
     \<and> last_compared (root tr) k = Some (rk, rs)
     \<and> (f = 1 \<and> rk = k \<or> f = 0 \<and> rk \<noteq> k)"
proof -
  from search_and_splay_spec [OF assms, of k]
  obtain rk rs l r f where sp: "search_and_splay (root tr) k = Some (Node rk rs l r, f)"
    "inorder (Node rk rs l r) = inorder (root tr)" "last_compared (root tr) k = Some (rk, rs)"
    "f = 1 \<or> f = 0 \<and> rk \<noteq> k" "f = 0 \<or> rk = k"
    by blast
  from sp(4,5) have fl: "f = 1 \<and> rk = k \<or> f = 0 \<and> rk \<noteq> k" by auto
  from sp(1) fl have "splay_find (Some tr) k =
       Some (\<lparr>found = f, key = (if f = 1 then k else 0), sat = (if f = 1 then rs else None)\<rparr>,
             Some (tr\<lparr>root := Node rk rs l r\<rparr>))"
    by (auto simp: splay_find_def SPLAY_BLANK_RESULT_def)
  with sp(2,3) fl show ?thesis by blast
qed

lemma splay_min_nonempty:
  assumes "root tr \<noteq> NULL"
  shows "\<exists>mk ms mr. splay_min (Some tr) =
       Some (\<lparr>found = 1, key = mk, sat = ms\<rparr>, Some (tr\<lparr>root := Node mk ms NULL mr\<rparr>))
     \<and> (mk, ms) # inorder mr = inorder (root tr)"
proof -
  have blank: "history initialize_topdown = (\<lambda>i. NULL)"
    by (simp add: initialize_topdown_def)
  from min_loop_total [OF assms blank]
  obtain td' mk ms mr where lp: "min_loop initialize_topdown (root tr) = Some (td', Node mk ms NULL mr)"
    "rem0 td' = NULL" "(mk, ms) # inorder mr @ inorder (rem1 td') = inorder (root tr)"
    by (auto simp: initialize_topdown_def)
  with assms have "splay_min (Some tr) =
       Some (\<lparr>found = 1, key = mk, sat = ms\<rparr>,
             Some (tr\<lparr>root := Node mk ms NULL (store_right_tip (rem1 td') mr)\<rparr>))"
    by (simp add: splay_min_def SPLAY_ASSERT_def)
  with lp(3) show ?thesis by auto
qed

lemma splay_max_nonempty:
  assumes "root tr \<noteq> NULL"
  shows "\<exists>mk ms ml. splay_max (Some tr) =
       Some (\<lparr>found = 1, key = mk, sat = ms\<rparr>, Some (tr\<lparr>root := Node mk ms ml NULL\<rparr>))
     \<and> inorder ml @ [(mk, ms)] = inorder (root tr)"
proof -
  have blank: "history initialize_topdown = (\<lambda>i. NULL)"
    by (simp add: initialize_topdown_def)
  from max_loop_total [OF assms blank]
  obtain td' mk ms ml where lp: "max_loop initialize_topdown (root tr) = Some (td', Node mk ms ml NULL)"
    "rem1 td' = NULL" "inorder (rem0 td') @ inorder ml @ [(mk, ms)] = inorder (root tr)"
    by (auto simp: initialize_topdown_def)
  with assms have "splay_max (Some tr) =
       Some (\<lparr>found = 1, key = mk, sat = ms\<rparr>,
             Some (tr\<lparr>root := Node mk ms (store_left_tip (rem0 td') ml) NULL\<rparr>))"
    by (simp add: splay_max_def SPLAY_ASSERT_def)
  with lp(3) show ?thesis by auto
qed

lemma insert_and_splay_spec:
  "\<exists>L R. insert_and_splay rt (Node k s NULL NULL) = Some (Node k s L R)
     \<and> inorder L @ inorder R = inorder rt
     \<and> (inorder L = [] \<or> sint (fst (last (inorder L))) < sint k)
     \<and> (inorder R = [] \<or> \<not> sint (fst (hd (inorder R))) < sint k)"
proof (cases "rt = NULL")
  case True
  then show ?thesis by (simp add: insert_and_splay_def)
next
  case False
  have blank: "history initialize_topdown = (\<lambda>i. NULL)"
    by (simp add: initialize_topdown_def)
  from insert_loop_total [OF blank, of rt k]
  obtain td' where lp: "insert_loop initialize_topdown rt k = Some td'"
    "inorder (rem0 td') @ inorder (rem1 td') = inorder rt"
    by (auto simp: initialize_topdown_def)
  from insert_loop_part [OF blank lp(1)]
  have "(inorder (rem0 td') = [] \<or> sint (fst (last (inorder (rem0 td')))) < sint k)
     \<and> (inorder (rem1 td') = [] \<or> \<not> sint (fst (hd (inorder (rem1 td')))) < sint k)"
    by (simp add: initialize_topdown_def)
  moreover from False lp(1)
  have "insert_and_splay rt (Node k s NULL NULL) = Some (Node k s (rem0 td') (rem1 td'))"
    by (simp add: insert_and_splay_def SPLAY_ASSERT_def is_bst_leaf_def)
  ultimately show ?thesis using lp(2) by blast
qed

lemma node_ctor_cases:
  "node_ctor a k s = (n, a1) \<Longrightarrow> n = NULL \<or> n = Node k s NULL NULL"
  by (auto simp: node_ctor_def split: prod.splits bool.splits)

lemma splay_insert_spec:
  assumes "node_ctor a k s = (n, a1)"
  shows "n = NULL \<and> splay_insert a (Some tr) k s = Some (EXIT_FAILURE, a1, Some tr)
     \<or> n \<noteq> NULL \<and> (\<exists>L R. splay_insert a (Some tr) k s =
           Some (EXIT_SUCCESS, a1, Some (tr\<lparr>root := Node k s L R, size_fld := size_fld tr + 1\<rparr>))
         \<and> inorder L @ inorder R = inorder (root tr)
         \<and> (inorder L = [] \<or> sint (fst (last (inorder L))) < sint k)
         \<and> (inorder R = [] \<or> \<not> sint (fst (hd (inorder R))) < sint k))"
proof (cases "n = NULL")
  case True
  with assms show ?thesis by (simp add: splay_insert_def)
next
  case False
  with node_ctor_cases [OF assms] have n: "n = Node k s NULL NULL" by simp
  from insert_and_splay_spec [of "root tr" k s]
  obtain L R where ins: "insert_and_splay (root tr) (Node k s NULL NULL) = Some (Node k s L R)"
    "inorder L @ inorder R = inorder (root tr)"
    "inorder L = [] \<or> sint (fst (last (inorder L))) < sint k"
    "inorder R = [] \<or> \<not> sint (fst (hd (inorder R))) < sint k"
    by blast
  from assms n ins(1) have "splay_insert a (Some tr) k s =
      Some (EXIT_SUCCESS, a1, Some (tr\<lparr>root := Node k s L R, size_fld := size_fld tr + 1\<rparr>))"
    by (simp add: splay_insert_def SPLAY_ASSERT_def same_node_def)
  with False ins(2,3,4) show ?thesis by blast
qed

lemma splay_update_spec:
  "\<exists>rc tr'. splay_update (Some tr) k s = Some (rc, Some tr') \<and> size_fld tr' = size_fld tr
     \<and> keys_of (root tr') = keys_of (root tr)"
proof (cases "root tr = NULL")
  case True
  then show ?thesis
    by (simp add: splay_update_def search_and_splay_def)
next
  case False
  from search_and_splay_spec [OF False, of k]
  obtain rk rs l r f where sp: "search_and_splay (root tr) k = Some (Node rk rs l r, f)"
    "inorder (Node rk rs l r) = inorder (root tr)"
    "f = 1 \<or> f = 0 \<and> rk \<noteq> k" "f = 0 \<or> rk = k"
    by blast
  from sp(2) have keys: "keys_of (Node rk rs l r) = keys_of (root tr)"
    "keys_of (Node rk s l r) = keys_of (root tr)"
    by (simp_all add: keys_of_def flip: sp(2))
  from sp(3) show ?thesis
  proof
    assume "f = 1"
    with sp(4) have "rk = k" by simp
    with sp(1) \<open>f = 1\<close> have "splay_update (Some tr) k s
        = Some (EXIT_SUCCESS, Some (tr\<lparr>root := Node rk s l r\<rparr>))"
      by (simp add: splay_update_def SPLAY_ASSERT_def)
    with keys(2) show ?thesis by simp
  next
    assume "f = 0 \<and> rk \<noteq> k"
    with sp(1) have "splay_update (Some tr) k s
        = Some (EXIT_FAILURE, Some (tr\<lparr>root := Node rk rs l r\<rparr>))"
      by (simp add: splay_update_def)
    with keys(1) show ?thesis by simp
  qed
qed

lemma splay_erase_found:
  assumes "splay_find (Some tr) k = Some (\<lparr>found = 1, key = k, sat = rs\<rparr>, Some (tr\<lparr>root := Node k rs l r\<rparr>))"
  shows "\<exists>rt'. splay_erase a (Some tr) k psat =
      Some (EXIT_SUCCESS, FREENODE a, Some (tr\<lparr>root := rt', size_fld := size_fld tr - 1\<rparr>),
            (if psat \<noteq> None then Some rs else None))
     \<and> inorder rt' = inorder l @ inorder r"
proof (cases "r = NULL")
  case True
  with assms have "splay_erase a (Some tr) k psat =
      Some (EXIT_SUCCESS, FREENODE a, Some (tr\<lparr>root := l, size_fld := size_fld tr - 1\<rparr>),
            (if psat \<noteq> None then Some rs else None))"
    by (simp add: splay_erase_def SPLAY_ASSERT_def)
  with True show ?thesis by (intro exI [of _ l]) simp
next
  case False
  then have "root (tr\<lparr>root := r\<rparr>) \<noteq> NULL" by simp
  from splay_min_nonempty [OF this]
  obtain mk ms mr where mn: "splay_min (Some (tr\<lparr>root := r\<rparr>)) =
       Some (\<lparr>found = 1, key = mk, sat = ms\<rparr>, Some (tr\<lparr>root := Node mk ms NULL mr\<rparr>))"
     "(mk, ms) # inorder mr = inorder r"
    by auto
  with assms False have "splay_erase a (Some tr) k psat =
      Some (EXIT_SUCCESS, FREENODE a,
            Some (tr\<lparr>root := Node mk ms l mr, size_fld := size_fld tr - 1\<rparr>),
            (if psat \<noteq> None then Some rs else None))"
    by (simp add: splay_erase_def SPLAY_ASSERT_def)
  with mn(2) [symmetric] show ?thesis by (intro exI [of _ "Node mk ms l mr"]) simp
qed

lemma splay_erase_not_found:
  assumes "splay_find (Some tr) k = Some (r, Some tr')" "found r = 0"
  shows "splay_erase a (Some tr) k psat = Some (EXIT_FAILURE, a, Some tr', psat)"
  using assms by (simp add: splay_erase_def)

lemma splay_erase_spec:
  "\<exists>rc a' tr' out. splay_erase a (Some tr) k psat = Some (rc, a', Some tr', out) \<and>
     (rc = EXIT_FAILURE \<and> a' = a \<and> out = psat \<and> size_fld tr' = size_fld tr
        \<and> inorder (root tr') = inorder (root tr)
        \<and> (root tr \<noteq> NULL \<longrightarrow> root_record (root tr') = last_compared (root tr) k)
        \<and> (bst_ordered (root tr) \<longrightarrow> k \<notin> set (keys_of (root tr)))
      \<or> rc = EXIT_SUCCESS \<and> a' = FREENODE a \<and> size_fld tr' = size_fld tr - 1
        \<and> (\<exists>xs s ys. last_compared (root tr) k = Some (k, s)
              \<and> inorder (root tr) = xs @ (k, s) # ys \<and> inorder (root tr') = xs @ ys
              \<and> out = (if psat \<noteq> None then Some s else None)))"
proof (cases "root tr = NULL")
  case True
  from splay_erase_not_found [OF splay_find_empty [OF True]] True show ?thesis
    by (simp add: keys_of_def)
next
  case False
  from splay_find_nonempty [OF False, of k]
  obtain rk rs l r f where fd: "splay_find (Some tr) k =
       Some (\<lparr>found = f, key = (if f = 1 then k else 0), sat = (if f = 1 then rs else None)\<rparr>,
             Some (tr\<lparr>root := Node rk rs l r\<rparr>))"
     "inorder (Node rk rs l r) = inorder (root tr)"
     "last_compared (root tr) k = Some (rk, rs)"
     "f = 1 \<and> rk = k \<or> f = 0 \<and> rk \<noteq> k"
    by blast
  from fd(4) show ?thesis
  proof
    assume f1: "f = 1 \<and> rk = k"
    with fd(1) have "splay_find (Some tr) k =
        Some (\<lparr>found = 1, key = k, sat = rs\<rparr>, Some (tr\<lparr>root := Node k rs l r\<rparr>))"
      by simp
    from splay_erase_found [OF this, of a psat]
    obtain rt' where er: "splay_erase a (Some tr) k psat =
      Some (EXIT_SUCCESS, FREENODE a, Some (tr\<lparr>root := rt', size_fld := size_fld tr - 1\<rparr>),
            (if psat \<noteq> None then Some rs else None))"
      "inorder rt' = inorder l @ inorder r"
      by blast
    from fd(2) f1 have "inorder (root tr) = inorder l @ (k, rs) # inorder r" by simp
    with er fd(3) f1 show ?thesis by auto
  next
    assume f0: "f = 0 \<and> rk \<noteq> k"
    with fd(1) have er: "splay_erase a (Some tr) k psat
         = Some (EXIT_FAILURE, a, Some (tr\<lparr>root := Node rk rs l r\<rparr>), psat)"
      by (intro splay_erase_not_found) auto
    have "k \<notin> set (keys_of (root tr))" if "bst_ordered (root tr)"
      using last_compared_present [OF that, of k] fd(3) f0 by auto
    with er fd(2,3) show ?thesis by (auto simp: root_record_def)
  qed
qed

lemma splay_erase_absent:
  assumes "k \<notin> set (keys_of (root tr))"
  shows "\<exists>tr'. splay_erase a (Some tr) k psat = Some (EXIT_FAILURE, a, Some tr', psat)
     \<and> size_fld tr' = size_fld tr \<and> inorder (root tr') = inorder (root tr)
     \<and> (root tr \<noteq> NULL \<longrightarrow> root_record (root tr') = last_compared (root tr) k)"
proof -
  from splay_erase_spec [of a tr k psat]
  obtain rc a' tr' out where er: "splay_erase a (Some tr) k psat = Some (rc, a', Some tr', out)"
    "rc = EXIT_FAILURE \<and> a' = a \<and> out = psat \<and> size_fld tr' = size_fld tr
        \<and> inorder (root tr') = inorder (root tr)
        \<and> (root tr \<noteq> NULL \<longrightarrow> root_record (root tr') = last_compared (root tr) k)
      \<or> rc = EXIT_SUCCESS \<and> (\<exists>xs s ys. inorder (root tr) = xs @ (k, s) # ys)"
    by blast
  from assms have "\<not> (\<exists>xs s ys. inorder (root tr) = xs @ (k, s) # ys)"
    by (auto simp: keys_of_def)
  with er show ?thesis by auto
qed

section \<open>The BST-ordering invariant\<close>

lemma bst_ordered_cong_keys: "keys_of t' = keys_of t \<Longrightarrow> bst_ordered t' = bst_ordered t"
  by (simp add: bst_ordered_iff_sorted)

lemma bst_ordered_cong_inorder: "inorder t' = inorder t \<Longrightarrow> bst_ordered t' = bst_ordered t"
  by (simp add: bst_ordered_iff_sorted keys_of_def)

lemma bst_ordered_remove:
  assumes "bst_ordered t" "inorder t = xs @ x # ys" "inorder t' = xs @ ys"
  shows "bst_ordered t'"
  using assms by (auto simp: bst_ordered_iff_sorted keys_of_def sorted_append)

lemma bst_ordered_new_root:
  assumes "bst_ordered t" "inorder L @ inorder R = inorder t"
    "inorder L = [] \<or> sint (fst (last (inorder L))) < sint k"
    "inorder R = [] \<or> \<not> sint (fst (hd (inorder R))) < sint k"
  shows "bst_ordered (Node k s L R)
     \<and> inorder L = filter (\<lambda>p. LESSKEY (fst p) k) (inorder t)
     \<and> inorder R = filter (\<lambda>p. \<not> LESSKEY (fst p) k) (inorder t)"
proof -
  from assms(1,2) have srt: "sorted (map (sint \<circ> fst) (inorder L @ inorder R))"
    by (simp add: bst_ordered_iff_sorted keys_of_def)
  from sorted_split_filter [OF srt assms(3,4)]
  have sp: "\<forall>p\<in>set (inorder L). sint (fst p) < sint k"
    "\<forall>p\<in>set (inorder R). \<not> sint (fst p) < sint k"
    "filter (\<lambda>p. sint (fst p) < sint k) (inorder L @ inorder R) = inorder L"
    "filter (\<lambda>p. \<not> sint (fst p) < sint k) (inorder L @ inorder R) = inorder R"
    by blast+
  from sp(3,4) have flt: "inorder L = filter (\<lambda>p. LESSKEY (fst p) k) (inorder t)"
    "inorder R = filter (\<lambda>p. \<not> LESSKEY (fst p) k) (inorder t)"
    unfolding LESSKEY_def assms(2) by simp_all
  note sp(1,2)
  moreover from srt have "bst_ordered L" "bst_ordered R"
    by (simp_all add: bst_ordered_iff_sorted keys_of_def sorted_append)
  ultimately have "bst_ordered (Node k s L R)"
    by (auto simp: keys_of_def)
  with flt show ?thesis by blast
qed

lemma apply_op_bst:
  assumes "bst_ordered (root tr)"
  shows "\<exists>a' tr'. apply_op (a, Some tr) oper = Some (a', Some tr') \<and> bst_ordered (root tr')"
proof (cases oper)
  case (Insert k s)
  obtain n a1 where nc: "node_ctor a k s = (n, a1)" by (cases "node_ctor a k s")
  from splay_insert_spec [OF nc, of tr] show ?thesis
  proof
    assume "n = NULL \<and> splay_insert a (Some tr) k s = Some (EXIT_FAILURE, a1, Some tr)"
    with assms Insert show ?thesis by (simp add: apply_op_def)
  next
    assume "n \<noteq> NULL \<and> (\<exists>L R. splay_insert a (Some tr) k s =
           Some (EXIT_SUCCESS, a1, Some (tr\<lparr>root := Node k s L R, size_fld := size_fld tr + 1\<rparr>))
         \<and> inorder L @ inorder R = inorder (root tr)
         \<and> (inorder L = [] \<or> sint (fst (last (inorder L))) < sint k)
         \<and> (inorder R = [] \<or> \<not> sint (fst (hd (inorder R))) < sint k))"
    then obtain L R where ins: "splay_insert a (Some tr) k s =
           Some (EXIT_SUCCESS, a1, Some (tr\<lparr>root := Node k s L R, size_fld := size_fld tr + 1\<rparr>))"
      "inorder L @ inorder R = inorder (root tr)"
      "inorder L = [] \<or> sint (fst (last (inorder L))) < sint k"
      "inorder R = [] \<or> \<not> sint (fst (hd (inorder R))) < sint k"
      by blast
    from bst_ordered_new_root [OF assms ins(2,3,4), of s]
    have "bst_ordered (Node k s L R)" by simp
    with ins(1) Insert show ?thesis
      by (simp add: apply_op_def del: bst_ordered.simps)
  qed
next
  case (Update k s)
  from splay_update_spec [of tr k s]
  obtain rc tr' where up: "splay_update (Some tr) k s = Some (rc, Some tr')"
    "keys_of (root tr') = keys_of (root tr)"
    by blast
  from bst_ordered_cong_keys [OF up(2)] assms have "bst_ordered (root tr')" by simp
  with up(1) Update show ?thesis by (simp add: apply_op_def)
next
  case (Erase k psat)
  from splay_erase_spec [of a tr k psat]
  obtain rc a' tr' out where er: "splay_erase a (Some tr) k psat = Some (rc, a', Some tr', out)"
    "inorder (root tr') = inorder (root tr)
      \<or> (\<exists>xs s ys. inorder (root tr) = xs @ (k, s) # ys \<and> inorder (root tr') = xs @ ys)"
    by blast
  from er(2) have "bst_ordered (root tr')"
  proof
    assume "inorder (root tr') = inorder (root tr)"
    from bst_ordered_cong_inorder [OF this] assms show ?thesis by simp
  next
    assume "\<exists>xs s ys. inorder (root tr) = xs @ (k, s) # ys \<and> inorder (root tr') = xs @ ys"
    then obtain xs s ys where "inorder (root tr) = xs @ (k, s) # ys" "inorder (root tr') = xs @ ys"
      by blast
    with assms show ?thesis by (rule bst_ordered_remove)
  qed
  with er(1) Erase show ?thesis by (simp add: apply_op_def)
next
  case (Find k)
  show ?thesis
  proof (cases "root tr = NULL")
    case True
    with splay_find_empty [OF True, of k] Find assms show ?thesis
      by (simp add: apply_op_def)
  next
    case False
    from splay_find_nonempty [OF False, of k]
    obtain r rt' where fd: "splay_find (Some tr) k = Some (r, Some (tr\<lparr>root := rt'\<rparr>))"
      "inorder rt' = inorder (root tr)"
      by blast
    from bst_ordered_cong_inorder [OF fd(2)] assms have "bst_ordered rt'" by simp
    with fd(1) Find show ?thesis by (simp add: apply_op_def)
  qed
next
  case Min
  show ?thesis
  proof (cases "root tr = NULL")
    case True
    with Min assms show ?thesis by (simp add: apply_op_def splay_min_def)
  next
    case False
    from splay_min_nonempty [OF False] obtain mk ms mr where
      "splay_min (Some tr) =
        Some (\<lparr>found = 1, key = mk, sat = ms\<rparr>, Some (tr\<lparr>root := Node mk ms NULL mr\<rparr>))"
      "inorder (Node mk ms NULL mr) = inorder (root tr)"
      by auto
    from bst_ordered_cong_inorder [OF this(2)] this(1) Min assms show ?thesis
      by (simp add: apply_op_def del: bst_ordered.simps inorder.simps)
  qed
next
  case Max
  show ?thesis
  proof (cases "root tr = NULL")
    case True
    with Max assms show ?thesis by (simp add: apply_op_def splay_max_def)
  next
    case False
    from splay_max_nonempty [OF False] obtain mk ms ml where
      "splay_max (Some tr) =
        Some (\<lparr>found = 1, key = mk, sat = ms\<rparr>, Some (tr\<lparr>root := Node mk ms ml NULL\<rparr>))"
      "inorder (Node mk ms ml NULL) = inorder (root tr)"
      by auto
    from bst_ordered_cong_inorder [OF this(2)] this(1) Max assms show ?thesis
      by (simp add: apply_op_def del: bst_ordered.simps inorder.simps)
  qed
qed

lemma run_ops_bst:
  "bst_ordered (root tr) \<Longrightarrow>
   \<exists>a' tr'. run_ops (a, Some tr) opers = Some (a', Some tr') \<and> bst_ordered (root tr')"
proof (induction opers arbitrary: a tr)
  case Nil
  then show ?case by simp
next
  case (Cons oper opers)
  from apply_op_bst [OF Cons.prems, of a oper]
  obtain a1 tr1 where st: "apply_op (a, Some tr) oper = Some (a1, Some tr1)" "bst_ordered (root tr1)"
    by blast
  from Cons.IH [OF st(2), of a1] st(1) show ?case by simp
qed

text \<open>
  Claim C1. Starting from the empty tree, every sequence of insert, update, erase, find,
  min and max operations runs to completion (no assertion fails, whatever the outcomes of
  the allocations) and leaves a tree in which every node satisfies the BST-ordering
  property. Every prefix of a sequence is a sequence, so the property holds after each
  operation.
\<close>

theorem bst_order_after_every_operation:
  "\<exists>a' tr'. run_ops (a, Some empty_tree) opers = Some (a', Some tr') \<and> bst_ordered (root tr')"
  by (rule run_ops_bst) (simp add: empty_tree_def)

theorem bst_order_after_every_operation_witness:
  "run_ops (\<lparr>allocated = 0, released = 0, future = [True, True, False, True]\<rparr>, Some empty_tree)
       [Insert 2 None, Insert 6 (Some 1), Insert 9 None, Insert 4 None, Find 5,
        Update 6 None, Erase 2 None, Min, Max]
     = Some (\<lparr>allocated = 3, released = 1, future = []\<rparr>,
             Some \<lparr>root = Node 6 None (Node 4 None NULL NULL) NULL, size_fld = 2\<rparr>)
   \<and> bst_ordered (Node 6 None (Node 4 None NULL NULL) NULL)"
proof -
  have run: "run_ops (\<lparr>allocated = 0, released = 0, future = [True, True, False, True]\<rparr>,
                     Some empty_tree)
       [Insert 2 None, Insert 6 (Some 1), Insert 9 None, Insert 4 None, Find 5,
        Update 6 None, Erase 2 None, Min, Max]
     = Some (\<lparr>allocated = 3, released = 1, future = []\<rparr>,
             Some \<lparr>root = Node 6 None (Node 4 None NULL NULL) NULL, size_fld = 2\<rparr>)"
    by code_simp
  from bst_order_after_every_operation
         [of "\<lparr>allocated = 0, released = 0, future = [True, True, False, True]\<rparr>"
             "[Insert 2 None, Insert 6 (Some 1), Insert 9 None, Insert 4 None, Find 5,
               Update 6 None, Erase 2 None, Min, Max]"]
  have "bst_ordered (Node 6 None (Node 4 None NULL NULL) NULL)"
    unfolding run by simp
  with run show ?thesis by blast
qed

section \<open>Erasing an absent key\<close>

text \<open>
  Claim C3, as stated, fails: \<^verbatim>\<open>splay_erase\<close> starts with \<^verbatim>\<open>splay_find\<close>, which splays
  also when the key is absent. In the tree with root 2 and left child 1, erasing the absent
  key 0 returns \<^verbatim>\<open>EXIT_FAILURE\<close> and leaves 1 at the root with right child 2.
\<close>

theorem erase_absent_changes_root_and_shape:
  "(0 :: splay_Key) \<notin> set (keys_of (Node 2 None (Node 1 None NULL NULL) NULL))
   \<and> splay_erase \<lparr>allocated = 2, released = 0, future = []\<rparr>
        (Some \<lparr>root = Node 2 None (Node 1 None NULL NULL) NULL, size_fld = 2\<rparr>) 0 None
      = Some (EXIT_FAILURE, \<lparr>allocated = 2, released = 0, future = []\<rparr>,
              Some \<lparr>root = Node 1 None NULL (Node 2 None NULL NULL), size_fld = 2\<rparr>, None)
   \<and> Node 1 None NULL (Node 2 None NULL NULL) \<noteq> Node 2 None (Node 1 None NULL NULL) NULL"
  by code_simp

text \<open>
  Claim C3, amended. When no node of the tree holds \<open>k\<close>, \<^verbatim>\<open>splay_erase\<close> returns
  \<^verbatim>\<open>EXIT_FAILURE\<close>, frees nothing, does not store through \<^verbatim>\<open>psat\<close>, and leaves the size
  field and the stored records, in their symmetric order, as they were. (The root and the
  shape may change.)
\<close>

theorem erase_absent_fails_keeping_records:
  assumes "k \<notin> set (keys_of (root tr))"
  shows "\<exists>tr'. splay_erase a (Some tr) k psat = Some (EXIT_FAILURE, a, Some tr', psat)
     \<and> size_fld tr' = size_fld tr \<and> inorder (root tr') = inorder (root tr)"
  using splay_erase_absent [OF assms, of a psat] by blast

theorem erase_absent_fails_keeping_records_witness:
  "(0 :: splay_Key) \<notin> set (keys_of (root \<lparr>root = Node 2 None (Node 1 None NULL NULL) NULL, size_fld = 2\<rparr>))
   \<and> (\<exists>tr'. splay_erase \<lparr>allocated = 2, released = 0, future = []\<rparr>
          (Some \<lparr>root = Node 2 None (Node 1 None NULL NULL) NULL, size_fld = 2\<rparr>) 0 None
        = Some (EXIT_FAILURE, \<lparr>allocated = 2, released = 0, future = []\<rparr>, Some tr', None)
      \<and> size_fld tr' = size_fld \<lparr>root = Node 2 None (Node 1 None NULL NULL) NULL, size_fld = 2\<rparr>
      \<and> inorder (root tr')
          = inorder (root \<lparr>root = Node 2 None (Node 1 None NULL NULL) NULL, size_fld = 2\<rparr>))"
proof -
  have h: "(0 :: splay_Key) \<notin> set (keys_of (root \<lparr>root = Node 2 None (Node 1 None NULL NULL) NULL, size_fld = 2\<rparr>))"
    by (simp add: keys_of_def)
  from erase_absent_fails_keeping_records [OF h] h show ?thesis by blast
qed

text \<open>
  Claim C9. When no node of the tree holds \<open>k\<close>, \<^verbatim>\<open>splay_erase\<close> reports failure and
  leaves the size field and the multiset of stored (key, satellite) records unchanged,
  while the node compared last on the search path has become the root.
\<close>

theorem erase_absent_frame:
  assumes "k \<notin> set (keys_of (root tr))"
  shows "\<exists>tr'. splay_erase a (Some tr) k psat = Some (EXIT_FAILURE, a, Some tr', psat)
     \<and> size_fld tr' = size_fld tr
     \<and> mset (inorder (root tr')) = mset (inorder (root tr))
     \<and> (root tr \<noteq> NULL \<longrightarrow> root_record (root tr') = last_compared (root tr) k)"
proof -
  from splay_erase_absent [OF assms, of a psat]
  obtain tr' where "splay_erase a (Some tr) k psat = Some (EXIT_FAILURE, a, Some tr', psat)"
    "size_fld tr' = size_fld tr" "inorder (root tr') = inorder (root tr)"
    "root tr \<noteq> NULL \<longrightarrow> root_record (root tr') = last_compared (root tr) k"
    by blast
  then show ?thesis by simp
qed

theorem erase_absent_frame_witness:
  "(7 :: splay_Key) \<notin> set (keys_of (Node 5 (Some 1) (Node 3 None NULL NULL) (Node 9 None NULL NULL)))
   \<and> splay_erase \<lparr>allocated = 3, released = 0, future = []\<rparr>
        (Some \<lparr>root = Node 5 (Some 1) (Node 3 None NULL NULL) (Node 9 None NULL NULL), size_fld = 3\<rparr>)
        7 (Some None)
      = Some (EXIT_FAILURE, \<lparr>allocated = 3, released = 0, future = []\<rparr>,
              Some \<lparr>root = Node 9 None (Node 5 (Some 1) (Node 3 None NULL NULL) NULL) NULL,
                    size_fld = 3\<rparr>, Some None)
   \<and> mset (inorder (Node 9 None (Node 5 (Some 1) (Node 3 None NULL NULL) NULL) NULL))
      = mset (inorder (Node 5 (Some 1) (Node 3 None NULL NULL) (Node 9 None NULL NULL)))
   \<and> root_record (Node 9 None (Node 5 (Some 1) (Node 3 None NULL NULL) NULL) NULL)
      = last_compared (Node 5 (Some 1) (Node 3 None NULL NULL) (Node 9 None NULL NULL)) 7"
proof -
  have h: "(7 :: splay_Key) \<notin> set (keys_of (root \<lparr>root = Node 5 (Some 1) (Node 3 None NULL NULL) (Node 9 None NULL NULL), size_fld = 3\<rparr>))"
    by (simp add: keys_of_def)
  have run: "splay_erase \<lparr>allocated = 3, released = 0, future = []\<rparr>
        (Some \<lparr>root = Node 5 (Some 1) (Node 3 None NULL NULL) (Node 9 None NULL NULL), size_fld = 3\<rparr>)
        7 (Some None)
      = Some (EXIT_FAILURE, \<lparr>allocated = 3, released = 0, future = []\<rparr>,
              Some \<lparr>root = Node 9 None (Node 5 (Some 1) (Node 3 None NULL NULL) NULL) NULL,
                    size_fld = 3\<rparr>, Some None)"
    by code_simp
  from erase_absent_frame [OF h, of "\<lparr>allocated = 3, released = 0, future = []\<rparr>" "Some None"]
  show ?thesis unfolding run using h by simp
qed

section \<open>Find, insert and the round trip\<close>

lemma splay_find_absent:
  assumes "k \<notin> set (keys_of (root tr))"
  shows "\<exists>r tr'. splay_find (Some tr) k = Some (r, Some tr') \<and> found r = 0"
proof (cases "root tr = NULL")
  case True
  from splay_find_empty [OF True, of k] show ?thesis by simp
next
  case False
  from splay_find_nonempty [OF False, of k]
  obtain rk rs l r f where fd: "splay_find (Some tr) k =
       Some (\<lparr>found = f, key = (if f = 1 then k else 0), sat = (if f = 1 then rs else None)\<rparr>,
             Some (tr\<lparr>root := Node rk rs l r\<rparr>))"
     "last_compared (root tr) k = Some (rk, rs)"
     "f = 1 \<and> rk = k \<or> f = 0 \<and> rk \<noteq> k"
    by blast
  from last_compared_member [OF fd(2)] have "rk \<in> set (keys_of (root tr))"
    by (force simp: keys_of_def)
  with assms fd(3) have "f = 0" by auto
  with fd(1) show ?thesis by simp
qed

lemma splay_find_at_root:
  assumes "root tr = Node k s l r"
  shows "\<exists>l' r'. splay_find (Some tr) k =
       Some (\<lparr>found = 1, key = k, sat = s\<rparr>, Some (tr\<lparr>root := Node k s l' r'\<rparr>))
     \<and> inorder (Node k s l' r') = inorder (root tr)"
proof -
  from assms have ne: "root tr \<noteq> NULL" by simp
  from splay_find_nonempty [OF ne, of k]
  obtain rk rs l' r' f where fd: "splay_find (Some tr) k =
       Some (\<lparr>found = f, key = (if f = 1 then k else 0), sat = (if f = 1 then rs else None)\<rparr>,
             Some (tr\<lparr>root := Node rk rs l' r'\<rparr>))"
     "inorder (Node rk rs l' r') = inorder (root tr)"
     "last_compared (root tr) k = Some (rk, rs)"
     "f = 1 \<and> rk = k \<or> f = 0 \<and> rk \<noteq> k"
    by blast
  from fd(3) assms have "rk = k" "rs = s" by simp_all
  with fd(4) have "f = 1" by simp
  with fd(1,2) \<open>rk = k\<close> \<open>rs = s\<close> show ?thesis by auto
qed

text \<open>
  Claim C5. On a non-empty tree, \<^verbatim>\<open>splay_find\<close> returns without abort. If the tree is
  BST-ordered and some node holds \<open>k\<close>, the result has found 1 and carries the key and the
  satellite of the new root, whose key is \<open>k\<close>. If no node holds \<open>k\<close>, the result has
  found 0 and the new root is the node compared last on the search path, a record of the
  tree.
\<close>

theorem find_splays_to_root:
  assumes "root tr \<noteq> NULL"
  shows "\<exists>r tr'. splay_find (Some tr) k = Some (r, Some tr')
     \<and> (bst_ordered (root tr) \<and> k \<in> set (keys_of (root tr)) \<longrightarrow>
          found r = 1 \<and> key r = k \<and> root_record (root tr') = Some (k, sat r))
     \<and> (k \<notin> set (keys_of (root tr)) \<longrightarrow>
          found r = 0 \<and> root_record (root tr') = last_compared (root tr) k
          \<and> (\<exists>rec \<in> set (inorder (root tr)). root_record (root tr') = Some rec))"
proof -
  from splay_find_nonempty [OF assms, of k]
  obtain rk rs l r f where fd: "splay_find (Some tr) k =
       Some (\<lparr>found = f, key = (if f = 1 then k else 0), sat = (if f = 1 then rs else None)\<rparr>,
             Some (tr\<lparr>root := Node rk rs l r\<rparr>))"
     "last_compared (root tr) k = Some (rk, rs)"
     "f = 1 \<and> rk = k \<or> f = 0 \<and> rk \<noteq> k"
    by blast
  from last_compared_member [OF fd(2)] have mem: "(rk, rs) \<in> set (inorder (root tr))" .
  then have "rk \<in> set (keys_of (root tr))" by (force simp: keys_of_def)
  then have absent: "f = 0" if "k \<notin> set (keys_of (root tr))"
    using that fd(3) by auto
  have present: "f = 1 \<and> rk = k" if "bst_ordered (root tr)" "k \<in> set (keys_of (root tr))"
    using last_compared_present [OF that] fd(2,3) by auto
  have rr: "root_record (root (tr\<lparr>root := Node rk rs l r\<rparr>)) = Some (rk, rs)"
    by (simp add: root_record_def)
  show ?thesis
    unfolding fd(1) using absent present rr fd(2) mem by auto
qed

theorem find_splays_to_root_witness:
  "root \<lparr>root = Node 5 (Some 1) (Node 3 (Some 2) NULL NULL) (Node 9 (Some 3) NULL NULL), size_fld = 3\<rparr> \<noteq> NULL
   \<and> splay_find (Some \<lparr>root = Node 5 (Some 1) (Node 3 (Some 2) NULL NULL) (Node 9 (Some 3) NULL NULL), size_fld = 3\<rparr>) 9
      = Some (\<lparr>found = 1, key = 9, sat = Some 3\<rparr>,
              Some \<lparr>root = Node 9 (Some 3) (Node 5 (Some 1) (Node 3 (Some 2) NULL NULL) NULL) NULL, size_fld = 3\<rparr>)
   \<and> splay_find (Some \<lparr>root = Node 5 (Some 1) (Node 3 (Some 2) NULL NULL) (Node 9 (Some 3) NULL NULL), size_fld = 3\<rparr>) 4
      = Some (\<lparr>found = 0, key = 0, sat = None\<rparr>,
              Some \<lparr>root = Node 3 (Some 2) NULL (Node 5 (Some 1) NULL (Node 9 (Some 3) NULL NULL)), size_fld = 3\<rparr>)
   \<and> last_compared (Node 5 (Some 1) (Node 3 (Some 2) NULL NULL) (Node 9 (Some 3) NULL NULL)) 4 = Some (3, Some 2)"
proof -
  let ?t = "\<lparr>root = Node 5 (Some 1) (Node 3 (Some 2) NULL NULL) (Node 9 (Some 3) NULL NULL), size_fld = 3\<rparr>"
  have h: "root ?t \<noteq> NULL" by simp
  have b: "bst_ordered (root ?t)" "(9 :: splay_Key) \<in> set (keys_of (root ?t))"
    "(4 :: splay_Key) \<notin> set (keys_of (root ?t))"
    by (simp_all add: keys_of_def)
  from find_splays_to_root [OF h, of 9] b(1,2)
  obtain r9 t9 where r9: "splay_find (Some ?t) 9 = Some (r9, Some t9)" "found r9 = 1" "key r9 = 9"
    by blast
  from find_splays_to_root [OF h, of 4] b(3)
  obtain r4 t4 where r4: "splay_find (Some ?t) 4 = Some (r4, Some t4)" "found r4 = 0"
    "root_record (root t4) = last_compared (root ?t) 4"
    by blast
  have e9: "splay_find (Some ?t) 9
      = Some (\<lparr>found = 1, key = 9, sat = Some 3\<rparr>,
              Some \<lparr>root = Node 9 (Some 3) (Node 5 (Some 1) (Node 3 (Some 2) NULL NULL) NULL) NULL, size_fld = 3\<rparr>)"
    by code_simp
  have e4: "splay_find (Some ?t) 4
      = Some (\<lparr>found = 0, key = 0, sat = None\<rparr>,
              Some \<lparr>root = Node 3 (Some 2) NULL (Node 5 (Some 1) NULL (Node 9 (Some 3) NULL NULL)), size_fld = 3\<rparr>)"
    by code_simp
  from r4(1,3) e4 have "last_compared (root ?t) 4 = Some (3, Some 2)"
    by (simp add: root_record_def)
  with h e9 e4 show ?thesis by simp
qed

text \<open>
  Claim C6. On a non-null handle to a BST-ordered tree, \<^verbatim>\<open>splay_insert\<close> returns without
  abort, and returns \<^verbatim>\<open>EXIT_FAILURE\<close> exactly when \<^verbatim>\<open>node_ctor\<close> returns null (the
  allocation failed). When the allocation succeeds the new node is the root, the size field
  is incremented by one (in \<^verbatim>\<open>unsigned\<close> arithmetic), the left subtree holds exactly the
  old records whose key compares less than \<open>k\<close> under \<^verbatim>\<open>LESSKEY\<close>, and the right subtree
  holds all the others, both in their old symmetric order.
\<close>

theorem insert_partitions_tree:
  assumes "bst_ordered (root tr)"
  shows "\<exists>rc a1 t1. splay_insert a (Some tr) k s = Some (rc, a1, t1)
     \<and> (rc = EXIT_FAILURE \<longleftrightarrow> fst (node_ctor a k s) = NULL)
     \<and> (fst (node_ctor a k s) \<noteq> NULL \<longrightarrow>
          rc = EXIT_SUCCESS
          \<and> (\<exists>L R. t1 = Some (tr\<lparr>root := Node k s L R, size_fld := size_fld tr + 1\<rparr>)
                \<and> inorder L @ inorder R = inorder (root tr)
                \<and> inorder L = filter (\<lambda>p. LESSKEY (fst p) k) (inorder (root tr))
                \<and> inorder R = filter (\<lambda>p. \<not> LESSKEY (fst p) k) (inorder (root tr))))"
proof -
  obtain n a1 where nc: "node_ctor a k s = (n, a1)" by (cases "node_ctor a k s")
  from splay_insert_spec [OF nc, of tr] show ?thesis
  proof
    assume "n = NULL \<and> splay_insert a (Some tr) k s = Some (EXIT_FAILURE, a1, Some tr)"
    with nc show ?thesis by simp
  next
    assume "n \<noteq> NULL \<and> (\<exists>L R. splay_insert a (Some tr) k s =
           Some (EXIT_SUCCESS, a1, Some (tr\<lparr>root := Node k s L R, size_fld := size_fld tr + 1\<rparr>))
         \<and> inorder L @ inorder R = inorder (root tr)
         \<and> (inorder L = [] \<or> sint (fst (last (inorder L))) < sint k)
         \<and> (inorder R = [] \<or> \<not> sint (fst (hd (inorder R))) < sint k))"
    then obtain L R where ins: "n \<noteq> NULL" "splay_insert a (Some tr) k s =
           Some (EXIT_SUCCESS, a1, Some (tr\<lparr>root := Node k s L R, size_fld := size_fld tr + 1\<rparr>))"
      "inorder L @ inorder R = inorder (root tr)"
      "inorder L = [] \<or> sint (fst (last (inorder L))) < sint k"
      "inorder R = [] \<or> \<not> sint (fst (hd (inorder R))) < sint k"
      by blast
    from bst_ordered_new_root [OF assms ins(3,4,5), of s]
    have "inorder L = filter (\<lambda>p. LESSKEY (fst p) k) (inorder (root tr))"
      "inorder R = filter (\<lambda>p. \<not> LESSKEY (fst p) k) (inorder (root tr))"
      by simp_all
    with ins(3) have "\<exists>L' R'. tr\<lparr>root := Node k s L R, size_fld := size_fld tr + 1\<rparr>
            = tr\<lparr>root := Node k s L' R', size_fld := size_fld tr + 1\<rparr>
          \<and> inorder L' @ inorder R' = inorder (root tr)
          \<and> inorder L' = filter (\<lambda>p. LESSKEY (fst p) k) (inorder (root tr))
          \<and> inorder R' = filter (\<lambda>p. \<not> LESSKEY (fst p) k) (inorder (root tr))"
      by blast
    with ins(1,2) nc show ?thesis by simp
  qed
qed

theorem insert_partitions_tree_witness:
  "bst_ordered (root \<lparr>root = Node 5 None (Node 3 None NULL NULL) (Node 9 None (Node 7 None NULL NULL) NULL), size_fld = 4\<rparr>)
   \<and> splay_insert \<lparr>allocated = 4, released = 0, future = [True]\<rparr>
        (Some \<lparr>root = Node 5 None (Node 3 None NULL NULL) (Node 9 None (Node 7 None NULL NULL) NULL), size_fld = 4\<rparr>)
        7 (Some 1)
      = Some (EXIT_SUCCESS, \<lparr>allocated = 5, released = 0, future = []\<rparr>,
              Some \<lparr>root = Node 7 (Some 1) (Node 5 None (Node 3 None NULL NULL) NULL)
                                (Node 9 None (Node 7 None NULL NULL) NULL), size_fld = 5\<rparr>)
   \<and> inorder (Node 5 None (Node 3 None NULL NULL) NULL)
      = filter (\<lambda>p. LESSKEY (fst p) 7)
          (inorder (Node 5 None (Node 3 None NULL NULL) (Node 9 None (Node 7 None NULL NULL) NULL)))
   \<and> splay_insert \<lparr>allocated = 4, released = 0, future = [False]\<rparr>
        (Some \<lparr>root = Node 5 None (Node 3 None NULL NULL) (Node 9 None (Node 7 None NULL NULL) NULL), size_fld = 4\<rparr>)
        7 (Some 1)
      = Some (EXIT_FAILURE, \<lparr>allocated = 4, released = 0, future = []\<rparr>,
              Some \<lparr>root = Node 5 None (Node 3 None NULL NULL) (Node 9 None (Node 7 None NULL NULL) NULL), size_fld = 4\<rparr>)"
proof -
  let ?t = "\<lparr>root = Node 5 None (Node 3 None NULL NULL) (Node 9 None (Node 7 None NULL NULL) NULL), size_fld = 4\<rparr>"
  let ?a = "\<lparr>allocated = 4, released = 0, future = [True]\<rparr>"
  have h: "bst_ordered (root ?t)" by (simp add: keys_of_def)
  have ok: "fst (node_ctor ?a 7 (Some 1)) \<noteq> NULL"
    by (simp add: node_ctor_def malloc_node_def)
  have run: "splay_insert ?a (Some ?t) 7 (Some 1)
      = Some (EXIT_SUCCESS, \<lparr>allocated = 5, released = 0, future = []\<rparr>,
              Some \<lparr>root = Node 7 (Some 1) (Node 5 None (Node 3 None NULL NULL) NULL)
                                (Node 9 None (Node 7 None NULL NULL) NULL), size_fld = 5\<rparr>)"
    by code_simp
  have fail: "splay_insert \<lparr>allocated = 4, released = 0, future = [False]\<rparr> (Some ?t) 7 (Some 1)
      = Some (EXIT_FAILURE, \<lparr>allocated = 4, released = 0, future = []\<rparr>, Some ?t)"
    by code_simp
  from insert_partitions_tree [OF h, of ?a 7 "Some 1"] ok
  have "inorder (Node 5 None (Node 3 None NULL NULL) NULL)
      = filter (\<lambda>p. LESSKEY (fst p) 7) (inorder (root ?t))"
    unfolding run by auto
  with h run fail show ?thesis by simp
qed

text \<open>
  Claim C7. If no node of the tree holds \<open>k\<close> and \<^verbatim>\<open>splay_insert(t, k, s)\<close> succeeds, then
  \<^verbatim>\<open>splay_find(t, k)\<close> returns found 1 with satellite \<open>s\<close>, a following
  \<^verbatim>\<open>splay_erase(t, k, &out)\<close> returns \<^verbatim>\<open>EXIT_SUCCESS\<close> and stores \<open>s\<close> in \<open>out\<close>, and
  \<^verbatim>\<open>splay_find(t, k)\<close> after that returns found 0.
\<close>

theorem insert_find_erase_round_trip:
  assumes "k \<notin> set (keys_of (root tr))"
    and "splay_insert a (Some tr) k s = Some (EXIT_SUCCESS, a1, t1)"
  shows "\<exists>r t2 a3 t3 r4 t4.
       splay_find t1 k = Some (r, t2) \<and> found r = 1 \<and> sat r = s
     \<and> splay_erase a1 t2 k (Some out0) = Some (EXIT_SUCCESS, a3, t3, Some s)
     \<and> splay_find t3 k = Some (r4, t4) \<and> found r4 = 0"
proof -
  obtain n a1' where nc: "node_ctor a k s = (n, a1')" by (cases "node_ctor a k s")
  from splay_insert_spec [OF nc, of tr] assms(2)
  obtain L R where ins: "t1 = Some (tr\<lparr>root := Node k s L R, size_fld := size_fld tr + 1\<rparr>)"
    "inorder L @ inorder R = inorder (root tr)"
    by auto
  define T1 where "T1 = tr\<lparr>root := Node k s L R, size_fld := size_fld tr + 1\<rparr>"
  have rT1: "root T1 = Node k s L R" by (simp add: T1_def)
  from splay_find_at_root [OF rT1]
  obtain l2 r2 where f1: "splay_find (Some T1) k =
       Some (\<lparr>found = 1, key = k, sat = s\<rparr>, Some (T1\<lparr>root := Node k s l2 r2\<rparr>))"
     "inorder (Node k s l2 r2) = inorder (root T1)"
    by blast
  define T2 where "T2 = T1\<lparr>root := Node k s l2 r2\<rparr>"
  have rT2: "root T2 = Node k s l2 r2" by (simp add: T2_def)
  from splay_find_at_root [OF rT2]
  obtain l3 r3 where f2: "splay_find (Some T2) k =
       Some (\<lparr>found = 1, key = k, sat = s\<rparr>, Some (T2\<lparr>root := Node k s l3 r3\<rparr>))"
     "inorder (Node k s l3 r3) = inorder (root T2)"
    by blast
  from splay_erase_found [OF f2(1), of a1 "Some out0"]
  obtain rt3 where er: "splay_erase a1 (Some T2) k (Some out0) =
      Some (EXIT_SUCCESS, FREENODE a1, Some (T2\<lparr>root := rt3, size_fld := size_fld T2 - 1\<rparr>), Some s)"
    "inorder rt3 = inorder l3 @ inorder r3"
    by auto
  define T3 where "T3 = T2\<lparr>root := rt3, size_fld := size_fld T2 - 1\<rparr>"
  from f2(2) f1(2) rT1 rT2 have "inorder l3 @ (k, s) # inorder r3 = inorder L @ (k, s) # inorder R"
    by simp
  then have "mset (inorder l3 @ (k, s) # inorder r3) = mset (inorder L @ (k, s) # inorder R)"
    by simp
  then have "mset (inorder l3 @ inorder r3) = mset (inorder L @ inorder R)"
    by simp
  with er(2) ins(2) have "mset (inorder (root T3)) = mset (inorder (root tr))"
    by (simp add: T3_def)
  then have "set (inorder (root T3)) = set (inorder (root tr))"
    by (rule mset_eq_setD)
  with assms(1) have "k \<notin> set (keys_of (root T3))"
    by (simp add: keys_of_def)
  from splay_find_absent [OF this]
  obtain r4 t4 where f3: "splay_find (Some T3) k = Some (r4, Some t4)" "found r4 = 0"
    by blast
  from f1(1) er(1) f3 ins(1) show ?thesis
    unfolding T1_def [symmetric] T2_def [symmetric] T3_def [symmetric]
    by (intro exI [of _ "\<lparr>found = 1, key = k, sat = s\<rparr>"] exI [of _ "Some T2"]
          exI [of _ "FREENODE a1"] exI [of _ "Some T3"] exI [of _ r4] exI [of _ "Some t4"])
       simp
qed

theorem insert_find_erase_round_trip_witness:
  "(4 :: splay_Key) \<notin> set (keys_of (root \<lparr>root = Node 5 None (Node 3 None NULL NULL) NULL, size_fld = 2\<rparr>))
   \<and> splay_insert \<lparr>allocated = 2, released = 0, future = [True]\<rparr>
        (Some \<lparr>root = Node 5 None (Node 3 None NULL NULL) NULL, size_fld = 2\<rparr>) 4 (Some 8)
      = Some (EXIT_SUCCESS, \<lparr>allocated = 3, released = 0, future = []\<rparr>,
              Some \<lparr>root = Node 4 (Some 8) (Node 3 None NULL NULL) (Node 5 None NULL NULL), size_fld = 3\<rparr>)
   \<and> (\<exists>r t2 a3 t3 r4 t4.
         splay_find (Some \<lparr>root = Node 4 (Some 8) (Node 3 None NULL NULL) (Node 5 None NULL NULL), size_fld = 3\<rparr>) 4
           = Some (r, t2) \<and> found r = 1 \<and> sat r = Some 8
       \<and> splay_erase \<lparr>allocated = 3, released = 0, future = []\<rparr> t2 4 (Some None)
           = Some (EXIT_SUCCESS, a3, t3, Some (Some 8))
       \<and> splay_find t3 4 = Some (r4, t4) \<and> found r4 = 0)"
proof -
  let ?t = "\<lparr>root = Node 5 None (Node 3 None NULL NULL) NULL, size_fld = 2\<rparr>"
  have h: "(4 :: splay_Key) \<notin> set (keys_of (root ?t))" by (simp add: keys_of_def)
  have run: "splay_insert \<lparr>allocated = 2, released = 0, future = [True]\<rparr> (Some ?t) 4 (Some 8)
      = Some (EXIT_SUCCESS, \<lparr>allocated = 3, released = 0, future = []\<rparr>,
              Some \<lparr>root = Node 4 (Some 8) (Node 3 None NULL NULL) (Node 5 None NULL NULL), size_fld = 3\<rparr>)"
    by code_simp
  from insert_find_erase_round_trip [OF h run, of None] h run show ?thesis
    by blast
qed

section \<open>The health check\<close>

lemma sint_INT_MIN: "sint INT_MIN \<le> sint (x :: splay_Key)"
  using sint_ge [of x] by (simp add: INT_MIN_def)

lemma sint_INT_MAX: "sint (x :: splay_Key) \<le> sint INT_MAX"
  using sint_lt [of x] by (simp add: INT_MAX_def)

lemma breaks_bst_property_iff:
  "breaks_bst_property t lo hi \<longleftrightarrow>
     \<not> (bst_ordered t \<and> (\<forall>x\<in>set (keys_of t). sint lo \<le> sint x \<and> sint x \<le> sint hi))"
proof (induction t arbitrary: lo hi)
  case NULL
  show ?case by simp
next
  case (Node k s l r)
  have "\<not> (sint k < sint lo \<or> sint hi < sint k)
          \<and> (bst_ordered l \<and> (\<forall>x\<in>set (keys_of l). sint lo \<le> sint x \<and> sint x \<le> sint k))
          \<and> (bst_ordered r \<and> (\<forall>x\<in>set (keys_of r). sint k \<le> sint x \<and> sint x \<le> sint hi))
     \<longleftrightarrow> bst_ordered (Node k s l r)
          \<and> (\<forall>x\<in>set (keys_of (Node k s l r)). sint lo \<le> sint x \<and> sint x \<le> sint hi)"
    (is "?L \<longleftrightarrow> ?R")
  proof
    assume L: ?L
    then have "\<forall>x\<in>set (keys_of l). sint x \<le> sint hi" "\<forall>x\<in>set (keys_of r). sint lo \<le> sint x"
      by force+
    with L show ?R by auto
  next
    assume ?R
    then show ?L by auto
  qed
  then show ?case
    unfolding breaks_bst_property.simps Node.IH LESSKEY_def KEYLESS_def by auto
qed

lemma breaks_bst_property_whole:
  "breaks_bst_property t INT_MIN INT_MAX \<longleftrightarrow> \<not> bst_ordered t"
  by (simp add: breaks_bst_property_iff sint_INT_MIN sint_INT_MAX)

lemma splay_nodecount_of_nat: "splay_nodecount t = of_nat (node_count t)"
  by (induction t) simp_all

lemma node_count_0_iff: "node_count t = 0 \<longleftrightarrow> t = NULL"
  by (cases t) simp_all

lemma size_fld_matches_iff:
  assumes "node_count t < 2 ^ 32"
  shows "(sz :: 32 word) = splay_nodecount t \<longleftrightarrow> unat sz = node_count t"
proof
  assume "sz = splay_nodecount t"
  with assms show "unat sz = node_count t"
    by (simp add: splay_nodecount_of_nat unat_of_nat)
next
  assume "unat sz = node_count t"
  then have "of_nat (unat sz) = (of_nat (node_count t) :: 32 word)" by simp
  then show "sz = splay_nodecount t"
    by (simp add: splay_nodecount_of_nat)
qed

text \<open>A complete tree of height \<open>n\<close> whose keys are all 0: it has \<open>2^n - 1\<close> nodes.\<close>

fun full_tree :: "nat \<Rightarrow> splay_Node" where
  "full_tree 0 = NULL"
| "full_tree (Suc n) = Node 0 None (full_tree n) (full_tree n)"

lemma node_count_full_tree: "Suc (node_count (full_tree n)) = 2 ^ n"
  by (induction n) simp_all

lemma keys_of_full_tree: "x \<in> set (keys_of (full_tree n)) \<Longrightarrow> x = 0"
  by (induction n) auto

lemma bst_ordered_full_tree: "bst_ordered (full_tree n)"
  by (induction n) (auto dest: keys_of_full_tree)

text \<open>
  Claim C8, as stated, fails for trees too large for the \<^verbatim>\<open>unsigned\<close> size field:
  \<^verbatim>\<open>splay_nodecount\<close> counts in \<^verbatim>\<open>unsigned\<close> arithmetic and wraps around. A tree of
  \<open>2^32 + 1\<close> nodes with equal keys and size field 1 passes the check, though its size
  field differs from the number of its nodes.
\<close>

theorem health_check_passes_wrapped_count:
  "splay_health_check
     (Some \<lparr>root = Node 0 None (full_tree 32) (Node 0 None NULL NULL), size_fld = 1\<rparr>)
     = Some EXIT_SUCCESS
   \<and> unat (1 :: 32 word) \<noteq> node_count (Node 0 None (full_tree 32) (Node 0 None NULL NULL))"
proof -
  have cnt: "node_count (full_tree 32) = 4294967295"
    using node_count_full_tree [of 32] by simp
  then have wc: "splay_nodecount (full_tree 32) = - 1"
    by (simp add: splay_nodecount_of_nat)
  have "bst_ordered (Node 0 None (full_tree 32) (Node 0 None NULL NULL))"
    using bst_ordered_full_tree [of 32] by (auto dest: keys_of_full_tree)
  then have "\<not> breaks_bst_property (Node 0 None (full_tree 32) (Node 0 None NULL NULL)) INT_MIN INT_MAX"
    by (simp only: breaks_bst_property_whole simp_thms)
  with wc cnt show ?thesis
    by (simp add: splay_health_check_def splay_size_failure_def)
qed

text \<open>
  Claim C8, amended. For every tree with fewer than \<open>2^32\<close> nodes, the health check
  returns without abort, and it returns \<^verbatim>\<open>EXIT_SUCCESS\<close> if and only if the size field
  equals the number of reachable nodes, the size field is zero exactly when the root is
  null, and every node satisfies the BST-ordering property. (The check takes a
  \<^verbatim>\<open>const\<close> pointer and returns a status only: the tree is not changed.)
\<close>

theorem health_check_iff_invariants:
  assumes "node_count (root tr) < 2 ^ 32"
  shows "splay_health_check (Some tr) =
     Some (if unat (size_fld tr) = node_count (root tr)
              \<and> (size_fld tr = 0 \<longleftrightarrow> root tr = NULL)
              \<and> bst_ordered (root tr)
           then EXIT_SUCCESS else EXIT_FAILURE)"
proof (cases "0 = size_fld tr \<and> NULL = root tr")
  case True
  then have "size_fld tr = 0" "root tr = NULL" by auto
  then show ?thesis by (simp add: splay_health_check_def)
next
  case False
  show ?thesis
    using False size_fld_matches_iff [OF assms, of "size_fld tr"]
    by (auto simp: splay_health_check_def splay_size_failure_def breaks_bst_property_whole
          node_count_0_iff)
qed

theorem health_check_iff_invariants_witness:
  "node_count (root \<lparr>root = Node 5 None (Node 3 None NULL NULL) NULL, size_fld = 2\<rparr>) < 2 ^ 32
   \<and> splay_health_check (Some \<lparr>root = Node 5 None (Node 3 None NULL NULL) NULL, size_fld = 2\<rparr>)
       = Some EXIT_SUCCESS
   \<and> node_count (root \<lparr>root = Node 5 None (Node 7 None NULL NULL) NULL, size_fld = 2\<rparr>) < 2 ^ 32
   \<and> splay_health_check (Some \<lparr>root = Node 5 None (Node 7 None NULL NULL) NULL, size_fld = 2\<rparr>)
       = Some EXIT_FAILURE
   \<and> splay_health_check (Some \<lparr>root = Node 5 None (Node 3 None NULL NULL) NULL, size_fld = 3\<rparr>)
       = Some EXIT_FAILURE"
proof -
  have h1: "node_count (root \<lparr>root = Node 5 None (Node 3 None NULL NULL) NULL, size_fld = 2\<rparr>) < 2 ^ 32"
    and h2: "node_count (root \<lparr>root = Node 5 None (Node 7 None NULL NULL) NULL, size_fld = 2\<rparr>) < 2 ^ 32"
    and h3: "node_count (root \<lparr>root = Node 5 None (Node 3 None NULL NULL) NULL, size_fld = 3\<rparr>) < 2 ^ 32"
    by simp_all
  from health_check_iff_invariants [OF h1] health_check_iff_invariants [OF h2]
    health_check_iff_invariants [OF h3] h1 h2
  show ?thesis by (simp add: keys_of_def)
qed

section \<open>Copying a tree\<close>

lemma splay_dtor_helper_counts:
  "allocated (splay_dtor_helper a t) = allocated a
   \<and> released (splay_dtor_helper a t) = released a + node_count t
   \<and> future (splay_dtor_helper a t) = future a"
  by (induction t arbitrary: a) (simp_all add: FREENODE_def)

lemma node_ctor_counts:
  assumes "node_ctor a k s = (n, a1)"
  shows "released a1 = released a
     \<and> (n = NULL \<and> allocated a1 = allocated a \<or> n = Node k s NULL NULL \<and> allocated a1 = Suc (allocated a))"
  using assms
  by (auto simp: node_ctor_def malloc_node_def split: list.splits bool.splits if_splits)

lemma copy_helper_spec:
  "\<exists>rc w a'. copy_helper a t = Some (rc, w, a')
     \<and> (rc = EXIT_SUCCESS \<longrightarrow>
          w = Some t \<and> allocated a' = allocated a + node_count t \<and> released a' = released a)
     \<and> (rc = EXIT_FAILURE \<longrightarrow>
          (w = None \<or> w = Some NULL) \<and> t \<noteq> NULL
          \<and> allocated a' + released a = allocated a + released a')"
proof (induction t arbitrary: a)
  case NULL
  show ?case by simp
next
  case (Node k s l r)
  from Node.IH(1) [of a] obtain rcl wl a1 where cl: "copy_helper a l = Some (rcl, wl, a1)"
    "rcl = EXIT_SUCCESS \<longrightarrow>
       wl = Some l \<and> allocated a1 = allocated a + node_count l \<and> released a1 = released a"
    "rcl = EXIT_FAILURE \<longrightarrow> allocated a1 + released a = allocated a + released a1"
    by blast
  show ?case
  proof (cases rcl)
    case EXIT_FAILURE
    with cl show ?thesis by simp
  next
    case EXIT_SUCCESS
    with cl have l: "wl = Some l" "allocated a1 = allocated a + node_count l"
      "released a1 = released a"
      by simp_all
    from Node.IH(2) [of a1] obtain rcr wr a2 where cr: "copy_helper a1 r = Some (rcr, wr, a2)"
      "rcr = EXIT_SUCCESS \<longrightarrow>
         wr = Some r \<and> allocated a2 = allocated a1 + node_count r \<and> released a2 = released a1"
      "rcr = EXIT_FAILURE \<longrightarrow> allocated a2 + released a1 = allocated a1 + released a2"
      by blast
    show ?thesis
    proof (cases rcr)
      case EXIT_FAILURE
      with cl(1) cr EXIT_SUCCESS l show ?thesis
        by (simp add: splay_dtor_helper_counts)
    next
      case rs: EXIT_SUCCESS
      with cr have r: "wr = Some r" "allocated a2 = allocated a1 + node_count r"
        "released a2 = released a1"
        by simp_all
      obtain n a3 where nc: "node_ctor a2 k s = (n, a3)" by (cases "node_ctor a2 k s")
      from node_ctor_counts [OF nc] show ?thesis
      proof (elim conjE disjE)
        assume "released a3 = released a2" "n = NULL" "allocated a3 = allocated a2"
        with cl(1) cr(1) EXIT_SUCCESS rs l r nc show ?thesis
          by (simp add: splay_dtor_helper_counts)
      next
        assume "released a3 = released a2" "n = Node k s NULL NULL"
          "allocated a3 = Suc (allocated a2)"
        with cl(1) cr(1) EXIT_SUCCESS rs l r nc show ?thesis
          by simp
      qed
    qed
  qed
qed

lemma splay_tree_copy_failure:
  assumes "root tout = NULL" "size_fld tout = 0"
    and "splay_tree_copy a (Some tin) (Some tout) = Some (EXIT_FAILURE, a', t')"
  shows "t' = Some (tout\<lparr>size_fld := size_fld tin\<rparr>) \<and> root tin \<noteq> NULL
     \<and> allocated a' + released a = allocated a + released a'"
proof -
  from copy_helper_spec [of a "root tin"]
  obtain rc w a1 where ch: "copy_helper a (root tin) = Some (rc, w, a1)"
    "rc = EXIT_FAILURE \<longrightarrow>
          (w = None \<or> w = Some NULL) \<and> root tin \<noteq> NULL
          \<and> allocated a1 + released a = allocated a + released a1"
    by blast
  from assms ch(1) have "rc = EXIT_FAILURE" "a' = a1"
    "t' = Some (case w of None \<Rightarrow> tout\<lparr>size_fld := size_fld tin\<rparr>
                 | Some n \<Rightarrow> tout\<lparr>size_fld := size_fld tin, root := n\<rparr>)"
    by (simp_all add: splay_tree_copy_def SPLAY_ASSERT_def)
  with ch(2) assms(1) show ?thesis by auto
qed

section \<open>The size field under the dictionary operations\<close>

lemma node_count_inorder: "node_count t = length (inorder t)"
  by (induction t) simp_all

lemma node_count_keys_of: "node_count t = length (keys_of t)"
  by (simp add: node_count_inorder keys_of_def)

lemma unat_size_incr:
  assumes "unat (sz :: 32 word) = n" "Suc n < 2 ^ 32"
  shows "unat (sz + 1) = Suc n"
  using assms by (simp add: unat_word_ariths)

lemma unat_size_decr:
  assumes "unat (sz :: 32 word) = Suc n"
  shows "unat (sz - 1) = n"
proof -
  from assms have "sz \<noteq> 0" by auto
  then have "unat (sz - 1) = unat sz - 1" by (rule unat_minus_one)
  with assms show ?thesis by simp
qed

lemma apply_op_size:
  assumes "unat (size_fld tr) = node_count (root tr)" "Suc (node_count (root tr)) < 2 ^ 32"
    and "apply_op (a, Some tr) oper = Some (a', Some tr')"
  shows "unat (size_fld tr') = node_count (root tr')"
proof (cases oper)
  case (Insert k s)
  obtain n a1 where nc: "node_ctor a k s = (n, a1)" by (cases "node_ctor a k s")
  from splay_insert_spec [OF nc, of tr] show ?thesis
  proof
    assume "n = NULL \<and> splay_insert a (Some tr) k s = Some (EXIT_FAILURE, a1, Some tr)"
    with assms Insert show ?thesis by (simp add: apply_op_def)
  next
    assume "n \<noteq> NULL \<and> (\<exists>L R. splay_insert a (Some tr) k s =
           Some (EXIT_SUCCESS, a1, Some (tr\<lparr>root := Node k s L R, size_fld := size_fld tr + 1\<rparr>))
         \<and> inorder L @ inorder R = inorder (root tr)
         \<and> (inorder L = [] \<or> sint (fst (last (inorder L))) < sint k)
         \<and> (inorder R = [] \<or> \<not> sint (fst (hd (inorder R))) < sint k))"
    then obtain L R where ins: "splay_insert a (Some tr) k s =
           Some (EXIT_SUCCESS, a1, Some (tr\<lparr>root := Node k s L R, size_fld := size_fld tr + 1\<rparr>))"
      "inorder L @ inorder R = inorder (root tr)"
      by blast
    from ins(2) have "length (inorder L) + length (inorder R) = length (inorder (root tr))"
      by (metis length_append)
    then have "node_count (Node k s L R) = Suc (node_count (root tr))"
      by (simp add: node_count_inorder)
    moreover from unat_size_incr [OF assms(1,2)]
    have "unat (size_fld tr + 1) = Suc (node_count (root tr))" .
    ultimately show ?thesis using ins(1) assms(3) Insert
      by (auto simp: apply_op_def simp del: node_count.simps)
  qed
next
  case (Update k s)
  from splay_update_spec [of tr k s]
  obtain rc t1 where up: "splay_update (Some tr) k s = Some (rc, Some t1)"
    "size_fld t1 = size_fld tr" "keys_of (root t1) = keys_of (root tr)"
    by blast
  with assms Update show ?thesis
    by (auto simp: apply_op_def node_count_keys_of)
next
  case (Erase k psat)
  from splay_erase_spec [of a tr k psat]
  obtain rc a1 t1 out where er: "splay_erase a (Some tr) k psat = Some (rc, a1, Some t1, out)"
    "size_fld t1 = size_fld tr \<and> inorder (root t1) = inorder (root tr)
      \<or> size_fld t1 = size_fld tr - 1
        \<and> (\<exists>xs s ys. inorder (root tr) = xs @ (k, s) # ys \<and> inorder (root t1) = xs @ ys)"
    by blast
  from er(1) assms(3) Erase have t1: "tr' = t1" by (simp add: apply_op_def)
  from er(2) show ?thesis
  proof
    assume "size_fld t1 = size_fld tr \<and> inorder (root t1) = inorder (root tr)"
    with assms(1) t1 show ?thesis by (simp add: node_count_inorder)
  next
    assume "size_fld t1 = size_fld tr - 1
        \<and> (\<exists>xs s ys. inorder (root tr) = xs @ (k, s) # ys \<and> inorder (root t1) = xs @ ys)"
    then obtain xs s ys where rm: "size_fld t1 = size_fld tr - 1"
      "inorder (root tr) = xs @ (k, s) # ys" "inorder (root t1) = xs @ ys"
      by blast
    from rm(2,3) have "node_count (root tr) = Suc (node_count (root t1))"
      by (simp add: node_count_inorder)
    with assms(1) have "unat (size_fld tr) = Suc (node_count (root t1))" by simp
    from unat_size_decr [OF this] rm(1) t1 show ?thesis by simp
  qed
next
  case (Find k)
  show ?thesis
  proof (cases "root tr = NULL")
    case True
    with splay_find_empty [OF True, of k] Find assms show ?thesis
      by (simp add: apply_op_def)
  next
    case False
    from splay_find_nonempty [OF False, of k]
    obtain r rt' where fd: "splay_find (Some tr) k = Some (r, Some (tr\<lparr>root := rt'\<rparr>))"
      "inorder rt' = inorder (root tr)"
      by blast
    with Find assms show ?thesis
      by (auto simp: apply_op_def node_count_inorder)
  qed
next
  case Min
  show ?thesis
  proof (cases "root tr = NULL")
    case True
    with Min assms show ?thesis by (simp add: apply_op_def splay_min_def)
  next
    case False
    from splay_min_nonempty [OF False] obtain mk ms mr where
      "splay_min (Some tr) =
        Some (\<lparr>found = 1, key = mk, sat = ms\<rparr>, Some (tr\<lparr>root := Node mk ms NULL mr\<rparr>))"
      "inorder (Node mk ms NULL mr) = inorder (root tr)"
      by auto
    with Min assms show ?thesis
      by (auto simp: apply_op_def node_count_inorder simp del: inorder.simps)
  qed
next
  case Max
  show ?thesis
  proof (cases "root tr = NULL")
    case True
    with Max assms show ?thesis by (simp add: apply_op_def splay_max_def)
  next
    case False
    from splay_max_nonempty [OF False] obtain mk ms ml where
      "splay_max (Some tr) =
        Some (\<lparr>found = 1, key = mk, sat = ms\<rparr>, Some (tr\<lparr>root := Node mk ms ml NULL\<rparr>))"
      "inorder (Node mk ms ml NULL) = inorder (root tr)"
      by auto
    with Max assms show ?thesis
      by (auto simp: apply_op_def node_count_inorder simp del: inorder.simps)
  qed
qed

lemma splay_tree_clear_size:
  "splay_tree_clear a (Some tr)
     = (EXIT_SUCCESS, splay_dtor_helper a (root tr), Some (tr\<lparr>root := NULL, size_fld := 0\<rparr>))"
  by (simp add: splay_tree_clear_def splay_tree_empty_ctor_def)

lemma splay_tree_move_size:
  assumes "root tout = NULL" "size_fld tout = 0"
  shows "splay_tree_move (Some tin) (Some tout)
     = Some (EXIT_SUCCESS, Some (tin\<lparr>size_fld := 0, root := NULL\<rparr>),
             Some (tout\<lparr>size_fld := size_fld tin, root := root tin\<rparr>))"
  using assms by (simp add: splay_tree_move_def SPLAY_ASSERT_def)

lemma splay_tree_copy_success:
  assumes "root tout = NULL" "size_fld tout = 0"
    and "splay_tree_copy a (Some tin) (Some tout) = Some (EXIT_SUCCESS, a', t')"
  shows "t' = Some (tout\<lparr>size_fld := size_fld tin, root := root tin\<rparr>)"
proof -
  from copy_helper_spec [of a "root tin"]
  obtain rc w a1 where ch: "copy_helper a (root tin) = Some (rc, w, a1)"
    "rc = EXIT_SUCCESS \<longrightarrow> w = Some (root tin)"
    by blast
  from assms ch(1) have "rc = EXIT_SUCCESS"
    "t' = Some (case w of None \<Rightarrow> tout\<lparr>size_fld := size_fld tin\<rparr>
                 | Some n \<Rightarrow> tout\<lparr>size_fld := size_fld tin, root := n\<rparr>)"
    by (simp_all add: splay_tree_copy_def SPLAY_ASSERT_def)
  with ch(2) show ?thesis by simp
qed

section \<open>The failed copy\<close>

text \<open>
  Claim C4. \<^verbatim>\<open>splay_tree_copy\<close> stores the source's size in the destination before it
  clones, and does not reset it when the clone fails. With a source of three nodes and a
  third allocation that fails, the two nodes allocated are released and the destination's
  root is null, but its size field is 3, not 0.
\<close>

theorem copy_failure_leaves_size_set:
  "splay_tree_copy \<lparr>allocated = 3, released = 0, future = [True, True, False]\<rparr>
     (Some \<lparr>root = Node 5 None (Node 3 None NULL NULL) (Node 9 None NULL NULL), size_fld = 3\<rparr>)
     (Some empty_tree)
   = Some (EXIT_FAILURE, \<lparr>allocated = 5, released = 2, future = []\<rparr>,
           Some \<lparr>root = NULL, size_fld = 3\<rparr>)"
  by code_simp

text \<open>
  Claim C2. After a copy that fails in its first allocation, the destination, constructed
  empty, has a null root and size field 1: the size field is not the number of reachable
  nodes, the health check of the source itself reports the tree as unhealthy, and a second
  copy into it aborts in \<^verbatim>\<open>SPLAY_ASSERT(0 == to -> size)\<close>.
\<close>

theorem copy_failure_breaks_count_invariant:
  "splay_tree_copy \<lparr>allocated = 1, released = 0, future = [False]\<rparr>
     (Some \<lparr>root = Node 5 None NULL NULL, size_fld = 1\<rparr>) (Some empty_tree)
   = Some (EXIT_FAILURE, \<lparr>allocated = 1, released = 0, future = []\<rparr>,
           Some \<lparr>root = NULL, size_fld = 1\<rparr>)
   \<and> unat (size_fld \<lparr>root = NULL, size_fld = 1\<rparr>) \<noteq> node_count (root \<lparr>root = NULL, size_fld = 1\<rparr>)
   \<and> splay_health_check (Some \<lparr>root = NULL, size_fld = 1\<rparr>) = Some EXIT_FAILURE
   \<and> splay_tree_copy \<lparr>allocated = 1, released = 0, future = [True]\<rparr>
        (Some \<lparr>root = Node 5 None NULL NULL, size_fld = 1\<rparr>) (Some \<lparr>root = NULL, size_fld = 1\<rparr>)
      = None"
  by (simp add: splay_tree_copy_def empty_tree_def SPLAY_ASSERT_def node_ctor_def malloc_node_def
        splay_health_check_def splay_size_failure_def)

end
